theory Spec2Isabelle
  imports Complex_Main "HOL-Library.AList"
begin

section \<open>Python values used by \<open>MultiLevelCache\<close>\<close>

text \<open>
  The class \<open>MultiLevelCache\<close> of \<open>docs/fastapi/examples/high-performance-patterns.py\<close>
  keeps four Python dictionaries.  A Python \<open>dict\<close> remembers the order in which its
  keys were first inserted, and \<open>sorted\<close> is stable, so the order decides which of two
  entries with the same access time is evicted first.  A dictionary is therefore an
  association list: assigning to a key that is present replaces the value in place,
  assigning to a new key appends it, removing a key drops its pair.  These are
  \<open>AList.update\<close> and \<open>AList.delete\<close>.

  Time stamps (\<open>time.time()\<close>) and hit rates are Python floats; they are modelled as
  exact real numbers.
\<close>

type_synonym ('k, 'v) pydict = "('k \<times> 'v) list"

definition dict_keys :: "('k, 'v) pydict \<Rightarrow> 'k list" where
  "dict_keys d = map fst d"

definition dict_in :: "'k \<Rightarrow> ('k, 'v) pydict \<Rightarrow> bool" where
  "dict_in k d = (k \<in> set (dict_keys d))"

definition dict_get :: "('k, 'v) pydict \<Rightarrow> 'k \<Rightarrow> 'v option" where
  "dict_get d k = map_of d k"

definition dict_set :: "'k \<Rightarrow> 'v \<Rightarrow> ('k, 'v) pydict \<Rightarrow> ('k, 'v) pydict" where
  "dict_set k v d = AList.update k v d"

text \<open>\<open>d.pop(k, None)\<close>, and \<open>del d[k]\<close> under the guard \<open>k in d\<close>.\<close>

definition dict_discard :: "'k \<Rightarrow> ('k, 'v) pydict \<Rightarrow> ('k, 'v) pydict" where
  "dict_discard k d = AList.delete k d"

datatype py_error = KeyError | ZeroDivisionError

text \<open>\<open>d.pop(k)\<close> without a default raises \<open>KeyError\<close> on a missing key.\<close>

definition dict_pop :: "'k \<Rightarrow> ('k, 'v) pydict \<Rightarrow> py_error + ('k, 'v) pydict" where
  "dict_pop k d = (if dict_in k d then Inr (AList.delete k d) else Inl KeyError)"

text \<open>The slice \<open>xs[:n]\<close>: a negative \<open>n\<close> counts from the end.\<close>

definition py_slice_to :: "int \<Rightarrow> 'a list \<Rightarrow> 'a list" where
  "py_slice_to n xs =
     (if 0 \<le> n then take (nat n) xs else take (length xs - nat (- n)) xs)"

text \<open>\<open>pattern in key\<close> on strings: \<open>pattern\<close> occurs as a contiguous substring.\<close>

fun is_prefix :: "string \<Rightarrow> string \<Rightarrow> bool" where
  "is_prefix [] ys = True"
| "is_prefix (x # xs) [] = False"
| "is_prefix (x # xs) (y # ys) = (x = y \<and> is_prefix xs ys)"

fun str_contains :: "string \<Rightarrow> string \<Rightarrow> bool" where
  "str_contains pat [] = (pat = [])"
| "str_contains pat (c # cs) = (is_prefix pat (c # cs) \<or> str_contains pat cs)"

text \<open>True division \<open>a / b\<close> of two integers.\<close>

definition py_truediv :: "int \<Rightarrow> int \<Rightarrow> py_error + real" where
  "py_truediv a b = (if b = 0 then Inl ZeroDivisionError else Inr (real_of_int a / real_of_int b))"

section \<open>The cache object\<close>

text \<open>The dictionary built by \<open>set\<close> for one entry.\<close>

record 'v cache_entry =
  entry_value :: 'v
  expires_at :: real
  created_at :: real
  access_count :: int

text \<open>\<open>self.stats\<close>: six counters, all starting at 0 and only ever incremented.\<close>

record cache_stats =
  l1_hits :: nat
  l1_misses :: nat
  l2_hits :: nat
  l2_misses :: nat
  evictions :: nat
  invalidations :: nat

text \<open>
  The fields of \<open>self\<close>.  The last field is not in the source: \<open>tick\<close> counts the calls
  of \<open>time.time()\<close> made so far, and the \<open>n\<close>-th call returns \<open>clk n\<close> for a clock
  \<open>clk\<close> that every operation takes as its first argument.
\<close>

record 'v multi_level_cache =
  l1_size :: int
  l2_size :: int
  default_ttl :: int
  l1_cache :: "(string, 'v cache_entry) pydict"
  l1_access_times :: "(string, real) pydict"
  l2_cache :: "(string, 'v cache_entry) pydict"
  l2_access_times :: "(string, real) pydict"
  stats :: cache_stats
  tick :: nat

type_synonym clock = "nat \<Rightarrow> real"

definition init_cache :: "int \<Rightarrow> int \<Rightarrow> int \<Rightarrow> 'v multi_level_cache" where
  "init_cache l1 l2 ttl =
     \<lparr>l1_size = l1, l2_size = l2, default_ttl = ttl,
      l1_cache = [], l1_access_times = [], l2_cache = [], l2_access_times = [],
      stats = \<lparr>l1_hits = 0, l1_misses = 0, l2_hits = 0, l2_misses = 0,
               evictions = 0, invalidations = 0\<rparr>,
      tick = 0\<rparr>"

definition time_time :: "clock \<Rightarrow> 'v multi_level_cache \<Rightarrow> real \<times> 'v multi_level_cache" where
  "time_time clk s = (clk (tick s), s\<lparr>tick := Suc (tick s)\<rparr>)"

definition bump_evictions :: "'v multi_level_cache \<Rightarrow> 'v multi_level_cache" where
  "bump_evictions s = s\<lparr>stats := (stats s)\<lparr>evictions := evictions (stats s) + 1\<rparr>\<rparr>"

subsection \<open>\<open>_ensure_l2_space\<close>\<close>

fun l2_evict_loop :: "string list \<Rightarrow> 'v multi_level_cache \<Rightarrow> 'v multi_level_cache" where
  "l2_evict_loop [] s = s"
| "l2_evict_loop (key # keys) s =
     l2_evict_loop keys
       (bump_evictions
          (s\<lparr>l2_cache := dict_discard key (l2_cache s),
             l2_access_times := dict_discard key (l2_access_times s)\<rparr>))"

definition ensure_l2_space :: "'v multi_level_cache \<Rightarrow> 'v multi_level_cache" where
  "ensure_l2_space s =
     (if int (length (l2_cache s)) \<ge> l2_size s then
        (let evict_count = l2_size s div 4;
             sorted_items = sort_key snd (l2_access_times s)
         in l2_evict_loop (map fst (py_slice_to evict_count sorted_items)) s)
      else s)"

subsection \<open>\<open>_evict_l1_to_l2\<close> and \<open>_ensure_l1_space\<close>\<close>

text \<open>The part of the loop body that runs once the entry has left the hot tier.\<close>

definition demote :: "clock \<Rightarrow> string \<Rightarrow> 'v cache_entry \<Rightarrow> 'v multi_level_cache
    \<Rightarrow> 'v multi_level_cache" where
  "demote clk key entry s =
     (let (t, s1) = time_time clk s;
          s2 = (if t < expires_at entry then
                  (let s3 = ensure_l2_space s1;
                       s4 = s3\<lparr>l2_cache := dict_set key entry (l2_cache s3)\<rparr>;
                       (t', s5) = time_time clk s4
                   in s5\<lparr>l2_access_times := dict_set key t' (l2_access_times s5)\<rparr>)
                else s1)
      in bump_evictions s2)"

text \<open>One iteration of the loop of \<open>_evict_l1_to_l2\<close>.\<close>

definition evict_entry :: "clock \<Rightarrow> string \<Rightarrow> 'v multi_level_cache
    \<Rightarrow> py_error + 'v multi_level_cache" where
  "evict_entry clk key s =
     (case dict_get (l1_cache s) key of
        None \<Rightarrow> Inr s
      | Some entry \<Rightarrow>
          (let s1 = s\<lparr>l1_cache := dict_discard key (l1_cache s)\<rparr>
           in case dict_pop key (l1_access_times s1) of
                Inl e \<Rightarrow> Inl e
              | Inr ats \<Rightarrow> Inr (demote clk key entry (s1\<lparr>l1_access_times := ats\<rparr>))))"

fun evict_loop :: "clock \<Rightarrow> string list \<Rightarrow> 'v multi_level_cache
    \<Rightarrow> py_error + 'v multi_level_cache" where
  "evict_loop clk [] s = Inr s"
| "evict_loop clk (key # keys) s =
     (case evict_entry clk key s of
        Inl e \<Rightarrow> Inl e
      | Inr s' \<Rightarrow> evict_loop clk keys s')"

definition evict_l1_to_l2 :: "clock \<Rightarrow> int option \<Rightarrow> 'v multi_level_cache
    \<Rightarrow> py_error + 'v multi_level_cache" where
  "evict_l1_to_l2 clk evict_count s =
     (let n = (case evict_count of
                 None \<Rightarrow> l1_size s div 4
               | Some c \<Rightarrow> if c = 0 then l1_size s div 4 else c);
          sorted_items = sort_key snd (l1_access_times s)
      in evict_loop clk (map fst (py_slice_to n sorted_items)) s)"

definition ensure_l1_space :: "clock \<Rightarrow> 'v multi_level_cache
    \<Rightarrow> py_error + 'v multi_level_cache" where
  "ensure_l1_space clk s =
     (if int (length (l1_cache s)) \<ge> l1_size s then evict_l1_to_l2 clk None s else Inr s)"

subsection \<open>\<open>_promote_to_l1\<close>, \<open>get\<close> and \<open>set\<close>\<close>

definition promote_to_l1 :: "clock \<Rightarrow> string \<Rightarrow> 'v cache_entry \<Rightarrow> 'v multi_level_cache
    \<Rightarrow> py_error + 'v multi_level_cache" where
  "promote_to_l1 clk key entry s =
     (case ensure_l1_space clk s of
        Inl e \<Rightarrow> Inl e
      | Inr s1 \<Rightarrow>
          (let s2 = s1\<lparr>l1_cache := dict_set key entry (l1_cache s1)\<rparr>;
               (t, s3) = time_time clk s2;
               s4 = s3\<lparr>l1_access_times := dict_set key t (l1_access_times s3)\<rparr>
           in Inr (s4\<lparr>l2_cache := dict_discard key (l2_cache s4),
                       l2_access_times := dict_discard key (l2_access_times s4)\<rparr>)))"

text \<open>The end of \<open>get\<close>: both miss counters go up and \<open>None\<close> is returned.\<close>

definition get_miss :: "'v multi_level_cache \<Rightarrow> 'v option \<times> 'v multi_level_cache" where
  "get_miss s =
     (None, s\<lparr>stats := (stats s)\<lparr>l1_misses := l1_misses (stats s) + 1,
                                  l2_misses := l2_misses (stats s) + 1\<rparr>\<rparr>)"

text \<open>The second half of \<open>get\<close>, from the comment \<open>Try L2 cache\<close> on.\<close>

definition get_l2 :: "clock \<Rightarrow> string \<Rightarrow> real \<Rightarrow> 'v multi_level_cache
    \<Rightarrow> py_error + ('v option \<times> 'v multi_level_cache)" where
  "get_l2 clk key current_time s =
     (case dict_get (l2_cache s) key of
        None \<Rightarrow> Inr (get_miss s)
      | Some entry \<Rightarrow>
          if current_time < expires_at entry then
            (case promote_to_l1 clk key entry s of
               Inl e \<Rightarrow> Inl e
             | Inr s1 \<Rightarrow>
                 Inr (Some (entry_value entry),
                      s1\<lparr>stats := (stats s1)\<lparr>l2_hits := l2_hits (stats s1) + 1\<rparr>\<rparr>))
          else
            Inr (get_miss (s\<lparr>l2_cache := dict_discard key (l2_cache s),
                             l2_access_times := dict_discard key (l2_access_times s)\<rparr>)))"

definition get :: "clock \<Rightarrow> string \<Rightarrow> 'v multi_level_cache
    \<Rightarrow> py_error + ('v option \<times> 'v multi_level_cache)" where
  "get clk key s0 =
     (let (current_time, s) = time_time clk s0
      in case dict_get (l1_cache s) key of
           None \<Rightarrow> get_l2 clk key current_time s
         | Some entry \<Rightarrow>
             if current_time < expires_at entry then
               Inr (Some (entry_value entry),
                    s\<lparr>l1_access_times := dict_set key current_time (l1_access_times s),
                      stats := (stats s)\<lparr>l1_hits := l1_hits (stats s) + 1\<rparr>\<rparr>)
             else
               get_l2 clk key current_time
                 (s\<lparr>l1_cache := dict_discard key (l1_cache s),
                    l1_access_times := dict_discard key (l1_access_times s)\<rparr>))"

text \<open>\<open>ttl or self.default_ttl\<close>: \<open>None\<close> and \<open>0\<close> are both falsy.\<close>

definition ttl_or_default :: "int option \<Rightarrow> 'v multi_level_cache \<Rightarrow> int" where
  "ttl_or_default ttl s =
     (case ttl of None \<Rightarrow> default_ttl s | Some n \<Rightarrow> if n = 0 then default_ttl s else n)"

definition cache_set :: "clock \<Rightarrow> string \<Rightarrow> 'v \<Rightarrow> int option \<Rightarrow> 'v multi_level_cache
    \<Rightarrow> py_error + 'v multi_level_cache" where
  "cache_set clk key v ttl s0 =
     (let ttl' = ttl_or_default ttl s0;
          (current_time, s) = time_time clk s0;
          entry = \<lparr>entry_value = v, expires_at = current_time + real_of_int ttl',
                   created_at = current_time, access_count = 1\<rparr>
      in case ensure_l1_space clk s of
           Inl e \<Rightarrow> Inl e
         | Inr s1 \<Rightarrow>
             Inr (s1\<lparr>l1_cache := dict_set key entry (l1_cache s1),
                     l1_access_times := dict_set key current_time (l1_access_times s1)\<rparr>))"

subsection \<open>\<open>invalidate\<close>\<close>

text \<open>One iteration of the loop over \<open>keys\<close>; the count is threaded with the state.\<close>

definition invalidate_key :: "string \<Rightarrow> nat \<times> 'v multi_level_cache \<Rightarrow> nat \<times> 'v multi_level_cache" where
  "invalidate_key key ns =
     (let (n, s) = ns;
          (n1, s1) = (if dict_in key (l1_cache s) then
                        (n + 1, s\<lparr>l1_cache := dict_discard key (l1_cache s),
                                  l1_access_times := dict_discard key (l1_access_times s)\<rparr>)
                      else (n, s))
      in if dict_in key (l2_cache s1) then
           (n1 + 1, s1\<lparr>l2_cache := dict_discard key (l2_cache s1),
                       l2_access_times := dict_discard key (l2_access_times s1)\<rparr>)
         else (n1, s1))"

text \<open>One iteration of the loop over \<open>to_remove\<close>.\<close>

definition remove_key :: "string \<Rightarrow> nat \<times> 'v multi_level_cache \<Rightarrow> nat \<times> 'v multi_level_cache" where
  "remove_key key ns =
     (let (n, s) = ns
      in (n + 1, s\<lparr>l1_cache := dict_discard key (l1_cache s),
                   l1_access_times := dict_discard key (l1_access_times s),
                   l2_cache := dict_discard key (l2_cache s),
                   l2_access_times := dict_discard key (l2_access_times s)\<rparr>))"

text \<open>The loop of the branch \<open>if keys:\<close>.\<close>

definition invalidate_keys :: "string list \<Rightarrow> 'v multi_level_cache
    \<Rightarrow> nat \<times> 'v multi_level_cache" where
  "invalidate_keys keys s = foldl (\<lambda>ns key. invalidate_key key ns) (0, s) keys"

text \<open>The branch \<open>elif pattern:\<close>: collect the matching keys of both tiers, then remove them.\<close>

definition invalidate_pattern :: "string \<Rightarrow> 'v multi_level_cache
    \<Rightarrow> nat \<times> 'v multi_level_cache" where
  "invalidate_pattern pattern s =
     (let to_remove = filter (str_contains pattern)
                        (dict_keys (l1_cache s) @ dict_keys (l2_cache s))
      in foldl (\<lambda>ns key. remove_key key ns) (0, s) to_remove)"

text \<open>
  \<open>if keys:\<close> and \<open>elif pattern:\<close> test truthiness: \<open>None\<close>, the empty list and the
  empty string are all falsy.
\<close>

definition invalidate :: "string option \<Rightarrow> string list option \<Rightarrow> 'v multi_level_cache
    \<Rightarrow> nat \<times> 'v multi_level_cache" where
  "invalidate pattern keys s =
     (let (invalidated, s1) =
            (case keys of
               Some (key # rest) \<Rightarrow> invalidate_keys (key # rest) s
             | _ \<Rightarrow>
                 (case pattern of
                    Some (c # cs) \<Rightarrow> invalidate_pattern (c # cs) s
                  | _ \<Rightarrow> (0, s)))
      in (invalidated,
          s1\<lparr>stats := (stats s1)\<lparr>invalidations := invalidations (stats s1) + invalidated\<rparr>\<rparr>))"

subsection \<open>\<open>get_stats\<close>\<close>

record stats_snapshot =
  snap_stats :: cache_stats
  snap_l1_size :: nat
  snap_l2_size :: nat
  l1_hit_rate :: real
  l2_hit_rate :: real
  total_hit_rate :: real

definition get_stats :: "'v multi_level_cache \<Rightarrow> py_error + stats_snapshot" where
  "get_stats s =
     (let st = stats s
      in case py_truediv (int (l1_hits st)) (max (int (l1_hits st) + int (l1_misses st)) 1) of
           Inl e \<Rightarrow> Inl e
         | Inr r1 \<Rightarrow>
        (case py_truediv (int (l2_hits st)) (max (int (l2_hits st) + int (l2_misses st)) 1) of
           Inl e \<Rightarrow> Inl e
         | Inr r2 \<Rightarrow>
        (case py_truediv (int (l1_hits st) + int (l2_hits st))
                (max (int (l1_hits st) + int (l1_misses st)
                      + int (l2_hits st) + int (l2_misses st)) 1) of
           Inl e \<Rightarrow> Inl e
         | Inr r3 \<Rightarrow>
             Inr \<lparr>snap_stats = st,
                  snap_l1_size = length (l1_cache s), snap_l2_size = length (l2_cache s),
                  l1_hit_rate = r1, l2_hit_rate = r2, total_hit_rate = r3\<rparr>)))"

section \<open>Sequences of public operations\<close>

datatype 'v cache_op =
    Get string
  | Set string 'v "int option"
  | Invalidate "string option" "string list option"

text \<open>What a call hands back: the value or \<open>None\<close> of \<open>get\<close>, nothing for \<open>set\<close>, the count of \<open>invalidate\<close>.\<close>

datatype 'v cache_result = Returned "'v option" | Done | Removed nat

fun step :: "clock \<Rightarrow> 'v cache_op \<Rightarrow> 'v multi_level_cache
    \<Rightarrow> py_error + ('v cache_result \<times> 'v multi_level_cache)" where
  "step clk (Get key) s =
     (case get clk key s of Inl e \<Rightarrow> Inl e | Inr (r, s') \<Rightarrow> Inr (Returned r, s'))"
| "step clk (Set key v ttl) s =
     (case cache_set clk key v ttl s of Inl e \<Rightarrow> Inl e | Inr s' \<Rightarrow> Inr (Done, s'))"
| "step clk (Invalidate pattern keys) s =
     (case invalidate pattern keys s of (n, s') \<Rightarrow> Inr (Removed n, s'))"

text \<open>A run stops at the first exception; otherwise it yields every result and the last state.\<close>

fun run :: "clock \<Rightarrow> 'v cache_op list \<Rightarrow> 'v multi_level_cache
    \<Rightarrow> py_error + ('v cache_result list \<times> 'v multi_level_cache)" where
  "run clk [] s = Inr ([], s)"
| "run clk (op # ops) s =
     (case step clk op s of
        Inl e \<Rightarrow> Inl e
      | Inr (r, s') \<Rightarrow>
          (case run clk ops s' of Inl e \<Rightarrow> Inl e | Inr (rs, s'') \<Rightarrow> Inr (r # rs, s'')))"

text \<open>Observations of the outcome of a run.\<close>

definition results_of :: "py_error + ('r \<times> 's) \<Rightarrow> py_error + 'r" where
  "results_of out = map_sum id fst out"

definition state_of :: "('s \<Rightarrow> 'a) \<Rightarrow> py_error + ('r \<times> 's) \<Rightarrow> py_error + 'a" where
  "state_of f out = map_sum id (f \<circ> snd) out"

definition hot_keys :: "'v multi_level_cache \<Rightarrow> string list" where
  "hot_keys s = dict_keys (l1_cache s)"

definition warm_keys :: "'v multi_level_cache \<Rightarrow> string list" where
  "warm_keys s = dict_keys (l2_cache s)"

text \<open>
  The association lists of a state stand for Python dictionaries when no key occurs
  twice; the states the class can be in also keep each tier's two dictionaries on the
  same keys, in the same order.
\<close>

definition wf_cache :: "'v multi_level_cache \<Rightarrow> bool" where
  "wf_cache s \<longleftrightarrow>
     distinct (dict_keys (l1_cache s)) \<and>
     dict_keys (l1_access_times s) = dict_keys (l1_cache s) \<and>
     distinct (dict_keys (l2_cache s)) \<and>
     dict_keys (l2_access_times s) = dict_keys (l2_cache s)"

section \<open>Definitions used to state the claims\<close>

text \<open>
  The hit rate as the specification words it: hits divided by hits plus misses, and 0 when
  that denominator is 0.  It is compared below with what \<open>get_stats\<close> computes through
  \<open>max(..., 1)\<close>.
\<close>

definition spec_hit_rate :: "nat \<Rightarrow> nat \<Rightarrow> real" where
  "spec_hit_rate hits denom = (if denom = 0 then 0 else real hits / real denom)"

text \<open>
  Example inputs.  Five \<open>set\<close> calls on a cache of hot capacity 4: the fifth finds the hot
  tier full and demotes the oldest key \<open>k\<close> to the warm tier.
\<close>

definition churn_ops :: "nat cache_op list" where
  "churn_ops = [Set ''k'' 1 (Some 1000), Set ''a'' 2 (Some 1000), Set ''b'' 3 (Some 1000),
                Set ''c'' 4 (Some 1000), Set ''d'' 5 (Some 1000)]"

text \<open>The \<open>expires_at\<close> field of the hot-tier entry of a key, if there is one.\<close>

definition hot_expiry :: "string \<Rightarrow> 'v multi_level_cache \<Rightarrow> real option" where
  "hot_expiry key s = map_option expires_at (dict_get (l1_cache s) key)"

text \<open>
  The state after \<open>churn_ops\<close> and a further \<open>set\<close> of \<open>k\<close>, under the clock that reads
  \<open>0, 1, 2, ...\<close>; these runs raise nothing, so \<open>projr\<close> takes their outcome.
\<close>

definition after_reset :: "nat multi_level_cache" where
  "after_reset = snd (projr (run real (churn_ops @ [Set ''k'' 6 (Some 1)]) (init_cache 4 4 300)))"

text \<open>The state after \<open>churn_ops\<close> alone.\<close>

definition after_churn :: "nat multi_level_cache" where
  "after_churn = snd (projr (run real churn_ops (init_cache 4 4 300)))"

text \<open>A sequence of \<open>set\<close> calls, one per key-value pair, all with the same \<open>ttl\<close> argument.\<close>

definition set_ops :: "int option \<Rightarrow> (string \<times> 'v) list \<Rightarrow> 'v cache_op list" where
  "set_ops ttl kvs = map (\<lambda>(k, v). Set k v ttl) kvs"

text \<open>
  What such a sequence leaves in \<open>l1_cache\<close> and \<open>l1_access_times\<close> while the hot tier has
  room: the \<open>i\<close>-th call reads the clock once and appends its entry.
\<close>

fun fresh_entries :: "clock \<Rightarrow> nat \<Rightarrow> int \<Rightarrow> (string \<times> 'v) list
    \<Rightarrow> (string, 'v cache_entry) pydict" where
  "fresh_entries clk n ttl [] = []"
| "fresh_entries clk n ttl ((k, v) # kvs) =
     (k, \<lparr>entry_value = v, expires_at = clk n + real_of_int ttl,
          created_at = clk n, access_count = 1\<rparr>) # fresh_entries clk (Suc n) ttl kvs"

fun fresh_times :: "clock \<Rightarrow> nat \<Rightarrow> (string \<times> 'v) list \<Rightarrow> (string, real) pydict" where
  "fresh_times clk n [] = []"
| "fresh_times clk n ((k, v) # kvs) = (k, clk n) # fresh_times clk (Suc n) kvs"

text \<open>Nine and five distinct keys, for a hot tier of capacity 8 and 4.\<close>

definition nine_sets :: "nat cache_op list" where
  "nine_sets = set_ops None [(''k1'', 1), (''k2'', 2), (''k3'', 3), (''k4'', 4), (''k5'', 5),
                             (''k6'', 6), (''k7'', 7), (''k8'', 8), (''k9'', 9)]"

definition five_pairs :: "(string \<times> nat) list" where
  "five_pairs = [(''k1'', 1), (''k2'', 2), (''k3'', 3), (''k4'', 4), (''k5'', 5)]"

text \<open>Both tiers hold at most \<open>a\<close> and \<open>b\<close> entries, which are the configured capacities.\<close>

definition within_capacity :: "int \<Rightarrow> int \<Rightarrow> 'v multi_level_cache \<Rightarrow> bool" where
  "within_capacity a b s \<longleftrightarrow>
     wf_cache s \<and> l1_size s = a \<and> l2_size s = b \<and>
     int (length (l1_cache s)) \<le> a \<and> int (length (l2_cache s)) \<le> b"

text \<open>A well-formed state in which no key is in both tiers.\<close>

definition single_tier :: "'v multi_level_cache \<Rightarrow> bool" where
  "single_tier s \<longleftrightarrow> wf_cache s \<and> set (hot_keys s) \<inter> set (warm_keys s) = {}"

text \<open>
  The state with every entry whose key satisfies \<open>P\<close> taken out of both tiers, that is out
  of all four dictionaries.
\<close>

definition without_keys :: "(string \<Rightarrow> bool) \<Rightarrow> 'v multi_level_cache \<Rightarrow> 'v multi_level_cache" where
  "without_keys P s =
     s\<lparr>l1_cache := filter (\<lambda>kv. \<not> P (fst kv)) (l1_cache s),
       l1_access_times := filter (\<lambda>kv. \<not> P (fst kv)) (l1_access_times s),
       l2_cache := filter (\<lambda>kv. \<not> P (fst kv)) (l2_cache s),
       l2_access_times := filter (\<lambda>kv. \<not> P (fst kv)) (l2_access_times s)\<rparr>"

text \<open>
  What an invalidation of the keys that satisfy \<open>P\<close> is to do, in the words of the
  specification: it removes them from both tiers, returns the number of entries removed,
  one per tier, and adds that number to the invalidation counter.  It is compared below
  with both branches of \<open>invalidate\<close>.
\<close>

definition spec_invalidate :: "(string \<Rightarrow> bool) \<Rightarrow> 'v multi_level_cache
    \<Rightarrow> nat \<times> 'v multi_level_cache" where
  "spec_invalidate P s =
     (let n = length (filter P (hot_keys s @ warm_keys s))
      in (n, (without_keys P s)
               \<lparr>stats := (stats s)\<lparr>invalidations := invalidations (stats s) + n\<rparr>\<rparr>))"

section \<open>Evaluation and basic facts\<close>

lemmas cache_defs =
  init_cache_def time_time_def bump_evictions_def ensure_l2_space_def demote_def
  evict_entry_def evict_l1_to_l2_def ensure_l1_space_def promote_to_l1_def get_miss_def
  get_l2_def get_def ttl_or_default_def cache_set_def invalidate_key_def remove_key_def
  invalidate_keys_def invalidate_pattern_def invalidate_def
  dict_keys_def dict_in_def dict_get_def dict_set_def dict_discard_def dict_pop_def
  py_slice_to_def results_of_def state_of_def hot_keys_def warm_keys_def Let_def

lemma dict_keys_set:
  "dict_keys (dict_set k v d) =
     (if k \<in> set (dict_keys d) then dict_keys d else dict_keys d @ [k])"
  by (simp add: dict_keys_def dict_set_def update_keys)

lemma dict_keys_discard: "dict_keys (dict_discard k d) = removeAll k (dict_keys d)"
  by (simp add: dict_keys_def dict_discard_def delete_keys)

lemma wf_init: "wf_cache (init_cache a b c)"
  by (simp add: wf_cache_def init_cache_def dict_keys_def)

lemma wf_l2_evict_loop: "wf_cache s \<Longrightarrow> wf_cache (l2_evict_loop keys s)"
  by (induction keys arbitrary: s)
     (simp_all add: wf_cache_def bump_evictions_def dict_keys_discard distinct_removeAll)

lemma wf_ensure_l2_space: "wf_cache s \<Longrightarrow> wf_cache (ensure_l2_space s)"
  by (simp add: ensure_l2_space_def Let_def wf_l2_evict_loop)

lemma l1_l2_evict_loop [simp]:
  "l1_cache (l2_evict_loop keys s) = l1_cache s"
  "l1_access_times (l2_evict_loop keys s) = l1_access_times s"
  by (induction keys arbitrary: s) (simp_all add: bump_evictions_def)

lemma l1_ensure_l2_space [simp]:
  "l1_cache (ensure_l2_space s) = l1_cache s"
  "l1_access_times (ensure_l2_space s) = l1_access_times s"
  by (simp_all add: ensure_l2_space_def Let_def)

lemma wf_l2_insert:
  "wf_cache s \<Longrightarrow>
   wf_cache (s\<lparr>l2_cache := dict_set key entry (l2_cache s),
               l2_access_times := dict_set key t (l2_access_times s)\<rparr>)"
  by (simp add: wf_cache_def dict_keys_set)

lemma wf_tick [simp]: "wf_cache (s\<lparr>tick := n\<rparr>) = wf_cache s"
  by (simp add: wf_cache_def)

lemma wf_stats [simp]: "wf_cache (s\<lparr>stats := st\<rparr>) = wf_cache s"
  by (simp add: wf_cache_def)

lemma wf_demote: "wf_cache s \<Longrightarrow> wf_cache (demote clk key entry s)"
proof -
  assume wf: "wf_cache s"
  define s3 where "s3 = ensure_l2_space (s\<lparr>tick := Suc (tick s)\<rparr>)"
  have "wf_cache s3"
    unfolding s3_def using wf by (intro wf_ensure_l2_space) simp
  from wf_l2_insert[OF this, where key=key and entry=entry and t="clk (tick s3)"]
  have "wf_cache (s3\<lparr>l2_cache := dict_set key entry (l2_cache s3),
                     tick := Suc (tick s3),
                     l2_access_times := dict_set key (clk (tick s3)) (l2_access_times s3)\<rparr>)"
    by (simp add: wf_cache_def)
  then show ?thesis
    using wf by (simp add: demote_def time_time_def Let_def bump_evictions_def s3_def)
qed

lemma evict_entry_wf:
  assumes "wf_cache s"
  shows "\<exists>s'. evict_entry clk key s = Inr s' \<and> wf_cache s'"
proof (cases "dict_get (l1_cache s) key")
  case None
  then show ?thesis using assms by (simp add: evict_entry_def)
next
  case (Some entry)
  then have "key \<in> set (dict_keys (l1_cache s))"
    by (auto simp: dict_get_def dict_keys_def dest: map_of_SomeD intro: rev_image_eqI)
  then have pop: "dict_pop key (l1_access_times s) = Inr (dict_discard key (l1_access_times s))"
    using assms by (simp add: dict_pop_def dict_in_def wf_cache_def dict_discard_def)
  have "wf_cache (s\<lparr>l1_cache := dict_discard key (l1_cache s),
                    l1_access_times := dict_discard key (l1_access_times s)\<rparr>)"
    using assms by (simp add: wf_cache_def dict_keys_discard distinct_removeAll)
  then show ?thesis
    using Some pop by (simp add: evict_entry_def wf_demote)
qed

lemma evict_loop_wf:
  "wf_cache s \<Longrightarrow> \<exists>s'. evict_loop clk keys s = Inr s' \<and> wf_cache s'"
proof (induction keys arbitrary: s)
  case Nil
  then show ?case by simp
next
  case (Cons key keys)
  from evict_entry_wf[OF Cons.prems, of clk key]
  obtain s1 where "evict_entry clk key s = Inr s1" "wf_cache s1" by blast
  with Cons.IH[of s1] show ?case by simp
qed

lemma ensure_l1_space_wf:
  "wf_cache s \<Longrightarrow> \<exists>s'. ensure_l1_space clk s = Inr s' \<and> wf_cache s'"
  by (simp add: ensure_l1_space_def evict_l1_to_l2_def Let_def evict_loop_wf)


lemma promote_to_l1_wf:
  assumes "wf_cache s"
  shows "\<exists>s'. promote_to_l1 clk key entry s = Inr s' \<and> wf_cache s'"
proof -
  from ensure_l1_space_wf[OF assms, of clk]
  obtain s1 where s1: "ensure_l1_space clk s = Inr s1" and wf1: "wf_cache s1" by blast
  show ?thesis
    using wf1
    by (simp add: promote_to_l1_def s1 time_time_def Let_def wf_cache_def
        dict_keys_set dict_keys_discard distinct_removeAll)
qed

lemma get_miss_wf: "wf_cache s \<Longrightarrow> wf_cache (snd (get_miss s))"
  by (simp add: get_miss_def)

lemma wf_l2_remove:
  "wf_cache s \<Longrightarrow>
   wf_cache (s\<lparr>l2_cache := dict_discard key (l2_cache s),
               l2_access_times := dict_discard key (l2_access_times s)\<rparr>)"
  by (simp add: wf_cache_def dict_keys_discard distinct_removeAll)

lemma wf_l1_remove:
  "wf_cache s \<Longrightarrow>
   wf_cache (s\<lparr>l1_cache := dict_discard key (l1_cache s),
               l1_access_times := dict_discard key (l1_access_times s)\<rparr>)"
  by (simp add: wf_cache_def dict_keys_discard distinct_removeAll)

lemma dict_get_Some_in: "dict_get d k = Some v \<Longrightarrow> k \<in> set (dict_keys d)"
  by (auto simp: dict_get_def dict_keys_def dest: map_of_SomeD intro: rev_image_eqI)

lemma dict_get_None_iff: "dict_get d k = None \<longleftrightarrow> k \<notin> set (dict_keys d)"
  by (simp add: dict_get_def dict_keys_def map_of_eq_None_iff)

lemma get_l2_wf:
  assumes "wf_cache s"
  shows "\<exists>r s'. get_l2 clk key t s = Inr (r, s') \<and> wf_cache s'"
proof (cases "dict_get (l2_cache s) key")
  case None
  then show ?thesis using assms by (simp add: get_l2_def get_miss_def)
next
  case (Some entry)
  show ?thesis
  proof (cases "t < expires_at entry")
    case True
    from promote_to_l1_wf[OF assms, of clk key entry]
    obtain s1 where "promote_to_l1 clk key entry s = Inr s1" "wf_cache s1" by blast
    then show ?thesis using Some True by (simp add: get_l2_def)
  next
    case False
    then show ?thesis
      using Some wf_l2_remove[OF assms, of key] by (simp add: get_l2_def get_miss_def)
  qed
qed

lemma get_wf:
  assumes "wf_cache s"
  shows "\<exists>r s'. get clk key s = Inr (r, s') \<and> wf_cache s'"
proof -
  define s1 where "s1 = s\<lparr>tick := Suc (tick s)\<rparr>"
  have wf1: "wf_cache s1" using assms by (simp add: s1_def)
  show ?thesis
  proof (cases "dict_get (l1_cache s1) key")
    case None
    then show ?thesis
      using get_l2_wf[OF wf1, of clk key "clk (tick s)"]
      by (simp add: get_def time_time_def s1_def)
  next
    case (Some entry)
    show ?thesis
    proof (cases "clk (tick s) < expires_at entry")
      case True
      have "key \<in> set (dict_keys (l1_cache s1))" using Some by (rule dict_get_Some_in)
      then have "wf_cache (s1\<lparr>l1_access_times := dict_set key (clk (tick s)) (l1_access_times s1)\<rparr>)"
        using wf1 by (simp add: wf_cache_def dict_keys_set)
      then show ?thesis
        using Some True by (simp add: get_def time_time_def s1_def)
    next
      case False
      from get_l2_wf[OF wf_l1_remove[OF wf1, of key], of clk key "clk (tick s)"]
      show ?thesis
        using Some False by (simp add: get_def time_time_def s1_def)
    qed
  qed
qed

lemma cache_set_wf:
  assumes "wf_cache s"
  shows "\<exists>s'. cache_set clk key v ttl s = Inr s' \<and> wf_cache s'"
proof -
  have "wf_cache (s\<lparr>tick := Suc (tick s)\<rparr>)" using assms by simp
  from ensure_l1_space_wf[OF this, of clk]
  obtain s1 where s1: "ensure_l1_space clk (s\<lparr>tick := Suc (tick s)\<rparr>) = Inr s1"
    and wf1: "wf_cache s1" by blast
  show ?thesis
    using wf1
    by (simp add: cache_set_def s1 time_time_def Let_def wf_cache_def dict_keys_set)
qed

lemma invalidate_key_wf: "wf_cache (snd ns) \<Longrightarrow> wf_cache (snd (invalidate_key key ns))"
  by (cases ns)
     (simp add: invalidate_key_def Let_def wf_cache_def dict_keys_discard distinct_removeAll)

lemma remove_key_wf: "wf_cache (snd ns) \<Longrightarrow> wf_cache (snd (remove_key key ns))"
  by (cases ns)
     (simp add: remove_key_def wf_cache_def dict_keys_discard distinct_removeAll)

lemma foldl_invalidate_key_wf:
  "wf_cache (snd ns) \<Longrightarrow> wf_cache (snd (foldl (\<lambda>ns key. invalidate_key key ns) ns keys))"
  by (induction keys arbitrary: ns) (simp_all add: invalidate_key_wf)

lemma foldl_remove_key_wf:
  "wf_cache (snd ns) \<Longrightarrow> wf_cache (snd (foldl (\<lambda>ns key. remove_key key ns) ns keys))"
  by (induction keys arbitrary: ns) (simp_all add: remove_key_wf)

lemma invalidate_keys_wf: "wf_cache s \<Longrightarrow> wf_cache (snd (invalidate_keys keys s))"
  unfolding invalidate_keys_def by (rule foldl_invalidate_key_wf) simp

lemma invalidate_pattern_wf: "wf_cache s \<Longrightarrow> wf_cache (snd (invalidate_pattern pattern s))"
  unfolding invalidate_pattern_def Let_def by (rule foldl_remove_key_wf) simp

lemma invalidate_wf: "wf_cache s \<Longrightarrow> wf_cache (snd (invalidate pattern keys s))"
  by (simp add: invalidate_def split_beta invalidate_keys_wf invalidate_pattern_wf
      split: option.splits list.splits)

lemma step_wf:
  assumes "wf_cache s"
  shows "\<exists>r s'. step clk op s = Inr (r, s') \<and> wf_cache s'"
proof (cases op)
  case (Get key)
  from get_wf[OF assms, of clk key] show ?thesis using Get by auto
next
  case (Set key v ttl)
  from cache_set_wf[OF assms, of clk key v ttl] show ?thesis using Set by auto
next
  case (Invalidate pattern keys)
  from invalidate_wf[OF assms, of pattern keys] show ?thesis
    using Invalidate by (simp add: split_beta)
qed

lemma run_wf:
  "wf_cache s \<Longrightarrow> \<exists>rs s'. run clk ops s = Inr (rs, s') \<and> wf_cache s'"
proof (induction ops arbitrary: s)
  case Nil
  then show ?case by simp
next
  case (Cons op ops)
  from step_wf[OF Cons.prems, of clk op]
  obtain r s1 where "step clk op s = Inr (r, s1)" "wf_cache s1" by blast
  with Cons.IH[of s1] show ?case by auto
qed

section \<open>Facts about the operations\<close>

subsection \<open>Substrings, hit rates and a small capacity\<close>

lemma str_contains_empty: "str_contains [] key"
  by (cases key) simp_all

lemma truediv_max:
  assumes "hits \<le> denom"
  shows "py_truediv (int hits) (max (int denom) 1) = Inr (spec_hit_rate hits denom)"
proof (cases "denom = 0")
  case True
  with assms show ?thesis by (simp add: py_truediv_def spec_hit_rate_def)
next
  case False
  then have "max (int denom) 1 = int denom" by simp
  with False show ?thesis by (simp add: py_truediv_def spec_hit_rate_def)
qed

lemma small_capacity_overflows:
  "state_of l1_size (run real [Set ''a'' (1::nat) None, Set ''b'' 2 None, Set ''c'' 3 None]
       (init_cache 2 4 300)) = Inr 2 \<and>
   state_of hot_keys (run real [Set ''a'' (1::nat) None, Set ''b'' 2 None, Set ''c'' 3 None]
       (init_cache 2 4 300)) = Inr [''a'', ''b'', ''c'']"
  by (simp add: cache_defs)

subsection \<open>Dictionary facts and the count of invalidate\<close>

lemma dict_get_set_same: "dict_get (dict_set k v d) k = Some v"
  by (simp add: dict_get_def dict_set_def update_conv')

lemma dict_get_set_other: "k' \<noteq> k \<Longrightarrow> dict_get (dict_set k v d) k' = dict_get d k'"
  by (simp add: dict_get_def dict_set_def update_conv')

lemma dict_in_discard: "\<not> dict_in k (dict_discard k d)"
  by (simp add: dict_in_def dict_keys_discard)

lemma dict_get_discard_same: "dict_get (dict_discard k d) k = None"
  by (simp add: dict_get_def dict_discard_def delete_conv')

lemma dict_in_get: "dict_in k d \<longleftrightarrow> dict_get d k \<noteq> None"
  by (simp add: dict_in_def dict_get_None_iff)

lemma length_discard_present:
  "distinct (dict_keys d) \<Longrightarrow> k \<in> set (dict_keys d) \<Longrightarrow> Suc (length (dict_discard k d)) = length d"
  by (induction d) (auto simp: dict_keys_def dict_discard_def rev_image_eqI)

lemma invalidate_key_count:
  assumes "wf_cache s"
  shows "fst (invalidate_key key (n, s))
           + length (l1_cache (snd (invalidate_key key (n, s))))
           + length (l2_cache (snd (invalidate_key key (n, s))))
         = n + length (l1_cache s) + length (l2_cache s)"
  using assms length_discard_present[of "l1_cache s" key] length_discard_present[of "l2_cache s" key]
  by (auto simp add: invalidate_key_def wf_cache_def dict_in_def)

lemma foldl_invalidate_key_count:
  "wf_cache (snd ns) \<Longrightarrow>
   fst (foldl (\<lambda>ns key. invalidate_key key ns) ns keys)
     + length (l1_cache (snd (foldl (\<lambda>ns key. invalidate_key key ns) ns keys)))
     + length (l2_cache (snd (foldl (\<lambda>ns key. invalidate_key key ns) ns keys)))
   = fst ns + length (l1_cache (snd ns)) + length (l2_cache (snd ns))"
proof (induction keys arbitrary: ns)
  case Nil
  then show ?case by simp
next
  case (Cons key keys)
  obtain n s where ns: "ns = (n, s)" by (cases ns)
  with Cons.prems have wf: "wf_cache s" by simp
  have "wf_cache (snd (invalidate_key key ns))"
    using Cons.prems by (rule invalidate_key_wf)
  from Cons.IH[OF this] invalidate_key_count[OF wf, of key n]
  show ?case by (simp add: ns)
qed

lemma stats_invalidate_key: "stats (snd (invalidate_key key ns)) = stats (snd ns)"
  by (cases ns) (simp add: invalidate_key_def)

lemma stats_remove_key: "stats (snd (remove_key key ns)) = stats (snd ns)"
  by (cases ns) (simp add: remove_key_def)

lemma stats_foldl_invalidate_key:
  "stats (snd (foldl (\<lambda>ns key. invalidate_key key ns) ns keys)) = stats (snd ns)"
  by (induction keys arbitrary: ns) (simp_all add: stats_invalidate_key)

lemma stats_foldl_remove_key:
  "stats (snd (foldl (\<lambda>ns key. remove_key key ns) ns keys)) = stats (snd ns)"
  by (induction keys arbitrary: ns) (simp_all add: stats_remove_key)

lemma stats_invalidate_keys: "stats (snd (invalidate_keys keys s)) = stats s"
  by (simp add: invalidate_keys_def stats_foldl_invalidate_key)

lemma stats_invalidate_pattern: "stats (snd (invalidate_pattern pattern s)) = stats s"
  unfolding invalidate_pattern_def Let_def by (simp only: stats_foldl_remove_key snd_conv)

lemma invalidate_counter:
  "invalidations (stats (snd (invalidate pattern keys s)))
     = invalidations (stats s) + fst (invalidate pattern keys s)"
  by (simp add: invalidate_def split_beta stats_invalidate_keys stats_invalidate_pattern
      split: option.splits list.splits)

lemma invalidate_exact_count:
  assumes "wf_cache s"
  shows "fst (invalidate pattern (Some (key # rest)) s)
           + length (l1_cache (snd (invalidate pattern (Some (key # rest)) s)))
           + length (l2_cache (snd (invalidate pattern (Some (key # rest)) s)))
         = length (l1_cache s) + length (l2_cache s)"
  using foldl_invalidate_key_count[of "(0, s)" "key # rest"] assms
  by (simp add: invalidate_def invalidate_keys_def split_beta)

lemma run_after_reset:
  "run real (churn_ops @ [Set ''k'' 6 (Some 1)]) (init_cache 4 4 300)
     = Inr ([Done, Done, Done, Done, Done, Done], after_reset)"
  by (simp add: after_reset_def churn_ops_def cache_defs)

subsection \<open>What set stores\<close>

lemma run_after_churn:
  "run real churn_ops (init_cache 4 4 300) = Inr ([Done, Done, Done, Done, Done], after_churn)"
  by (simp add: after_churn_def churn_ops_def cache_defs)

lemma cache_set_stores:
  assumes "cache_set clk key v ttl s = Inr s1"
  shows "dict_get (l1_cache s1) key =
           Some \<lparr>entry_value = v,
                 expires_at = clk (tick s) + real_of_int (ttl_or_default ttl s),
                 created_at = clk (tick s), access_count = 1\<rparr>"
  using assms
  by (auto simp add: cache_set_def time_time_def Let_def dict_get_set_same ttl_or_default_def
      split: sum.splits)

lemma get_hot_expired_warm_absent:
  assumes "dict_get (l1_cache s) key = Some e" "expires_at e \<le> clk (tick s)"
    "\<not> dict_in key (l2_cache s)"
  shows "\<exists>s'. get clk key s = Inr (None, s') \<and> \<not> dict_in key (l1_cache s')"
  using assms
  by (simp add: get_def time_time_def get_l2_def get_miss_def dict_in_get dict_in_discard
      dict_get_discard_same)

subsection \<open>Clock readings and promotion\<close>

lemma tick_l2_evict_loop [simp]: "tick (l2_evict_loop keys s) = tick s"
  by (induction keys arbitrary: s) (simp_all add: bump_evictions_def)

lemma tick_ensure_l2_space [simp]: "tick (ensure_l2_space s) = tick s"
  by (simp add: ensure_l2_space_def Let_def)

lemma tick_demote: "tick s \<le> tick (demote clk key entry s)"
  by (simp add: demote_def time_time_def Let_def bump_evictions_def)

lemma tick_evict_entry: "evict_entry clk key s = Inr s' \<Longrightarrow> tick s \<le> tick s'"
  using tick_demote[of "s\<lparr>l1_cache := dict_discard key (l1_cache s),
                           l1_access_times := dict_discard key (l1_access_times s)\<rparr>" clk key]
  by (auto simp add: evict_entry_def dict_pop_def dict_discard_def Let_def
      split: option.splits if_splits)

lemma tick_evict_loop: "evict_loop clk keys s = Inr s' \<Longrightarrow> tick s \<le> tick s'"
proof (induction keys arbitrary: s)
  case Nil
  then show ?case by simp
next
  case (Cons key keys)
  then show ?case
    by (auto split: sum.splits dest!: tick_evict_entry intro: order_trans)
qed

lemma tick_ensure_l1_space: "ensure_l1_space clk s = Inr s' \<Longrightarrow> tick s \<le> tick s'"
  by (auto simp add: ensure_l1_space_def evict_l1_to_l2_def Let_def
      split: if_splits dest: tick_evict_loop)

lemma promote_to_l1_result:
  assumes "wf_cache s"
  shows "\<exists>s'. promote_to_l1 clk key e s = Inr s' \<and>
           dict_get (l1_cache s') key = Some e \<and>
           \<not> dict_in key (l2_cache s') \<and>
           tick s < tick s' \<and>
           dict_get (l1_access_times s') key = Some (clk (tick s' - 1))"
proof -
  from ensure_l1_space_wf[OF assms, of clk]
  obtain s1 where s1: "ensure_l1_space clk s = Inr s1" by blast
  from tick_ensure_l1_space[OF s1] show ?thesis
    by (simp add: promote_to_l1_def s1 time_time_def Let_def dict_get_set_same dict_in_discard)
qed

lemma get_l2_hit:
  assumes "wf_cache s" "dict_get (l2_cache s) key = Some e" "t < expires_at e"
  shows "\<exists>s'. get_l2 clk key t s = Inr (Some (entry_value e), s') \<and>
           dict_get (l1_cache s') key = Some e \<and>
           \<not> dict_in key (l2_cache s') \<and>
           tick s < tick s' \<and>
           dict_get (l1_access_times s') key = Some (clk (tick s' - 1))"
proof -
  from promote_to_l1_result[OF assms(1), of clk key e]
  obtain s1 where "promote_to_l1 clk key e s = Inr s1"
    "dict_get (l1_cache s1) key = Some e" "\<not> dict_in key (l2_cache s1)"
    "tick s < tick s1" "dict_get (l1_access_times s1) key = Some (clk (tick s1 - 1))"
    by blast
  then show ?thesis using assms(2,3) by (simp add: get_l2_def)
qed

lemma get_hot_hit:
  assumes "dict_get (l1_cache s) key = Some e" "clk (tick s) < expires_at e"
  shows "\<exists>s'. get clk key s = Inr (Some (entry_value e), s') \<and> l1_cache s' = l1_cache s"
  using assms by (simp add: get_def time_time_def)

subsection \<open>Filling the hot tier and evicting a batch\<close>

lemma dict_set_fresh: "k \<notin> set (dict_keys d) \<Longrightarrow> dict_set k v d = d @ [(k, v)]"
  by (induction d) (auto simp: dict_set_def dict_keys_def)

lemma keys_fresh_entries [simp]: "dict_keys (fresh_entries clk n ttl kvs) = map fst kvs"
  by (induction clk n ttl kvs rule: fresh_entries.induct) (simp_all add: dict_keys_def)

lemma keys_fresh_times [simp]: "dict_keys (fresh_times clk n kvs) = map fst kvs"
  by (induction clk n kvs rule: fresh_times.induct) (simp_all add: dict_keys_def)

lemma length_fresh_entries [simp]: "length (fresh_entries clk n ttl kvs) = length kvs"
  by (induction clk n ttl kvs rule: fresh_entries.induct) simp_all

lemma cache_set_room:
  assumes "int (length (l1_cache s)) < l1_size s"
    "key \<notin> set (dict_keys (l1_cache s))"
    "dict_keys (l1_access_times s) = dict_keys (l1_cache s)"
  shows "cache_set clk key v ttl s =
           Inr (s\<lparr>tick := Suc (tick s),
                  l1_cache := l1_cache s @
                    [(key, \<lparr>entry_value = v,
                            expires_at = clk (tick s) + real_of_int (ttl_or_default ttl s),
                            created_at = clk (tick s), access_count = 1\<rparr>)],
                  l1_access_times := l1_access_times s @ [(key, clk (tick s))]\<rparr>)"
  using assms
  by (simp add: cache_set_def time_time_def ensure_l1_space_def Let_def dict_set_fresh)

lemma run_set_ops_fill:
  assumes "distinct (map fst kvs)"
    "set (map fst kvs) \<inter> set (dict_keys (l1_cache s)) = {}"
    "dict_keys (l1_access_times s) = dict_keys (l1_cache s)"
    "int (length (l1_cache s)) + int (length kvs) \<le> l1_size s"
  shows "run clk (set_ops ttl kvs) s =
           Inr (replicate (length kvs) Done,
                s\<lparr>tick := tick s + length kvs,
                  l1_cache := l1_cache s @ fresh_entries clk (tick s) (ttl_or_default ttl s) kvs,
                  l1_access_times := l1_access_times s @ fresh_times clk (tick s) kvs\<rparr>)"
  using assms
proof (induction kvs arbitrary: s)
  case Nil
  then show ?case by (simp add: set_ops_def)
next
  case (Cons kv kvs)
  obtain k v where kv: "kv = (k, v)" by (cases kv)
  let ?e = "\<lparr>entry_value = v,
             expires_at = clk (tick s) + real_of_int (ttl_or_default ttl s),
             created_at = clk (tick s), access_count = 1\<rparr>"
  let ?s1 = "s\<lparr>tick := Suc (tick s), l1_cache := l1_cache s @ [(k, ?e)],
               l1_access_times := l1_access_times s @ [(k, clk (tick s))]\<rparr>"
  have step1: "cache_set clk k v ttl s = Inr ?s1"
    using Cons.prems by (intro cache_set_room) (auto simp: kv)
  have "run clk (set_ops ttl kvs) ?s1 =
           Inr (replicate (length kvs) Done,
                ?s1\<lparr>tick := tick ?s1 + length kvs,
                  l1_cache := l1_cache ?s1 @ fresh_entries clk (tick ?s1) (ttl_or_default ttl ?s1) kvs,
                  l1_access_times := l1_access_times ?s1 @ fresh_times clk (tick ?s1) kvs\<rparr>)"
    using Cons.prems by (intro Cons.IH) (auto simp: kv dict_keys_def)
  moreover have "ttl_or_default ttl ?s1 = ttl_or_default ttl s"
    by (simp add: ttl_or_default_def split: option.splits)
  ultimately show ?case
    by (simp add: set_ops_def kv step1)
qed

lemma dict_get_discard_other: "k' \<noteq> k \<Longrightarrow> dict_get (dict_discard k d) k' = dict_get d k'"
  by (simp add: dict_get_def dict_discard_def)

lemma demote_live:
  assumes "clk (tick s) < expires_at e"
    "int (length (l2_cache s)) < l2_size s"
    "key \<notin> set (dict_keys (l2_cache s))"
    "dict_keys (l2_access_times s) = dict_keys (l2_cache s)"
  shows "demote clk key e s =
           s\<lparr>tick := tick s + 2,
             l2_cache := l2_cache s @ [(key, e)],
             l2_access_times := l2_access_times s @ [(key, clk (Suc (tick s)))],
             stats := (stats s)\<lparr>evictions := evictions (stats s) + 1\<rparr>\<rparr>"
proof -
  have a: "ensure_l2_space (s\<lparr>tick := Suc (tick s)\<rparr>) = s\<lparr>tick := Suc (tick s)\<rparr>"
    using assms(2) by (simp add: ensure_l2_space_def)
  have b: "dict_set key e (l2_cache s) = l2_cache s @ [(key, e)]"
    using assms(3) by (rule dict_set_fresh)
  have c: "dict_set key t (l2_access_times s) = l2_access_times s @ [(key, t)]" for t
    using assms(3,4) by (intro dict_set_fresh) simp
  show ?thesis
    using assms(1) by (simp add: demote_def time_time_def Let_def a b c bump_evictions_def)
qed

lemma evict_entry_live:
  assumes "dict_get (l1_cache s) key = Some e"
    "dict_keys (l1_access_times s) = dict_keys (l1_cache s)"
    "clk (tick s) < expires_at e"
    "int (length (l2_cache s)) < l2_size s"
    "key \<notin> set (dict_keys (l2_cache s))"
    "dict_keys (l2_access_times s) = dict_keys (l2_cache s)"
  shows "evict_entry clk key s =
           Inr (s\<lparr>l1_cache := dict_discard key (l1_cache s),
                  l1_access_times := dict_discard key (l1_access_times s),
                  tick := tick s + 2,
                  l2_cache := l2_cache s @ [(key, e)],
                  l2_access_times := l2_access_times s @ [(key, clk (Suc (tick s)))],
                  stats := (stats s)\<lparr>evictions := evictions (stats s) + 1\<rparr>\<rparr>)"
proof -
  let ?s1 = "s\<lparr>l1_cache := dict_discard key (l1_cache s),
               l1_access_times := dict_discard key (l1_access_times s)\<rparr>"
  have "key \<in> set (dict_keys (l1_access_times s))"
    using assms(1,2) by (simp add: dict_get_Some_in)
  then have pop: "dict_pop key (l1_access_times s) = Inr (dict_discard key (l1_access_times s))"
    by (simp add: dict_pop_def dict_in_def dict_discard_def)
  have "demote clk key e ?s1 =
           ?s1\<lparr>tick := tick ?s1 + 2,
             l2_cache := l2_cache ?s1 @ [(key, e)],
             l2_access_times := l2_access_times ?s1 @ [(key, clk (Suc (tick ?s1)))],
             stats := (stats ?s1)\<lparr>evictions := evictions (stats ?s1) + 1\<rparr>\<rparr>"
    using assms(3-6) by (intro demote_live) simp_all
  then show ?thesis
    by (simp add: evict_entry_def assms(1) pop)
qed

lemma evict_loop_live:
  assumes "distinct ks" "set ks \<subseteq> set (dict_keys (l1_cache s))"
    "dict_keys (l1_access_times s) = dict_keys (l1_cache s)"
    "set ks \<inter> set (dict_keys (l2_cache s)) = {}"
    "dict_keys (l2_access_times s) = dict_keys (l2_cache s)"
    "int (length (l2_cache s)) + int (length ks) \<le> l2_size s"
    "\<forall>k\<in>set ks. \<forall>e. dict_get (l1_cache s) k = Some e
        \<longrightarrow> clk (tick s + 2 * length ks) < expires_at e"
    "mono clk"
  shows "\<exists>s'. evict_loop clk ks s = Inr s' \<and>
           dict_keys (l1_cache s') = filter (\<lambda>k. k \<notin> set ks) (dict_keys (l1_cache s)) \<and>
           dict_keys (l1_access_times s') = dict_keys (l1_cache s') \<and>
           dict_keys (l2_cache s') = dict_keys (l2_cache s) @ ks"
  using assms
proof (induction ks arbitrary: s)
  case Nil
  then show ?case by simp
next
  case (Cons k ks)
  from Cons.prems(2) have "dict_get (l1_cache s) k \<noteq> None"
    by (simp add: dict_get_None_iff)
  then obtain e where e: "dict_get (l1_cache s) k = Some e" by blast
  have "clk (tick s) \<le> clk (tick s + 2 * length (k # ks))"
    using monoD[OF Cons.prems(8), of "tick s" "tick s + 2 * length (k # ks)"] by simp
  moreover have "clk (tick s + 2 * length (k # ks)) < expires_at e"
    using Cons.prems(7) e by simp
  ultimately have live: "clk (tick s) < expires_at e" by (rule le_less_trans)
  let ?s1 = "s\<lparr>l1_cache := dict_discard k (l1_cache s),
                  l1_access_times := dict_discard k (l1_access_times s),
                  tick := tick s + 2,
                  l2_cache := l2_cache s @ [(k, e)],
                  l2_access_times := l2_access_times s @ [(k, clk (Suc (tick s)))],
                  stats := (stats s)\<lparr>evictions := evictions (stats s) + 1\<rparr>\<rparr>"
  have step1: "evict_entry clk k s = Inr ?s1"
  proof (rule evict_entry_live)
    show "dict_get (l1_cache s) k = Some e" by fact
    show "dict_keys (l1_access_times s) = dict_keys (l1_cache s)" by fact
    show "clk (tick s) < expires_at e" by fact
    show "int (length (l2_cache s)) < l2_size s" using Cons.prems(6) by simp
    show "k \<notin> set (dict_keys (l2_cache s))" using Cons.prems(4) by simp
    show "dict_keys (l2_access_times s) = dict_keys (l2_cache s)" by fact
  qed
  have "\<exists>s'. evict_loop clk ks ?s1 = Inr s' \<and>
           dict_keys (l1_cache s') = filter (\<lambda>k. k \<notin> set ks) (dict_keys (l1_cache ?s1)) \<and>
           dict_keys (l1_access_times s') = dict_keys (l1_cache s') \<and>
           dict_keys (l2_cache s') = dict_keys (l2_cache ?s1) @ ks"
  proof (rule Cons.IH)
    show "distinct ks" using Cons.prems(1) by simp
    show "set ks \<subseteq> set (dict_keys (l1_cache ?s1))"
      using Cons.prems(1,2) by (auto simp: dict_keys_discard)
    show "dict_keys (l1_access_times ?s1) = dict_keys (l1_cache ?s1)"
      using Cons.prems(3) by (simp add: dict_keys_discard)
    show "set ks \<inter> set (dict_keys (l2_cache ?s1)) = {}"
      using Cons.prems(1,4) by (auto simp: dict_keys_def)
    show "dict_keys (l2_access_times ?s1) = dict_keys (l2_cache ?s1)"
      using Cons.prems(5) by (simp add: dict_keys_def)
    show "int (length (l2_cache ?s1)) + int (length ks) \<le> l2_size ?s1"
      using Cons.prems(6) by simp
    show "\<forall>k'\<in>set ks. \<forall>e. dict_get (l1_cache ?s1) k' = Some e
        \<longrightarrow> clk (tick ?s1 + 2 * length ks) < expires_at e"
    proof (intro ballI allI impI)
      fix k' e' assume k': "k' \<in> set ks" and "dict_get (l1_cache ?s1) k' = Some e'"
      moreover from k' Cons.prems(1) have "k' \<noteq> k" by auto
      ultimately have "dict_get (l1_cache s) k' = Some e'"
        by (simp add: dict_get_discard_other)
      with Cons.prems(7) k' have "clk (tick s + 2 * length (k # ks)) < expires_at e'"
        by simp
      then show "clk (tick ?s1 + 2 * length ks) < expires_at e'" by simp
    qed
    show "mono clk" by fact
  qed
  then obtain s' where s': "evict_loop clk ks ?s1 = Inr s'"
    "dict_keys (l1_cache s') = filter (\<lambda>k. k \<notin> set ks) (dict_keys (l1_cache ?s1))"
    "dict_keys (l1_access_times s') = dict_keys (l1_cache s')"
    "dict_keys (l2_cache s') = dict_keys (l2_cache ?s1) @ ks"
    by blast
  have "filter (\<lambda>k. k \<notin> set ks) (removeAll k (dict_keys (l1_cache s)))
          = filter (\<lambda>x. x \<notin> set (k # ks)) (dict_keys (l1_cache s))"
    by (auto simp: removeAll_filter_not_eq intro: filter_cong)
  with s' show ?case
    by (simp add: step1 dict_keys_discard) (simp add: dict_keys_def)
qed

lemma run_append:
  "run clk (ops1 @ ops2) s =
     (case run clk ops1 s of
        Inl e \<Rightarrow> Inl e
      | Inr (rs1, s1) \<Rightarrow>
          (case run clk ops2 s1 of Inl e \<Rightarrow> Inl e | Inr (rs2, s2) \<Rightarrow> Inr (rs1 @ rs2, s2)))"
  by (induction ops1 arbitrary: s) (auto split: sum.splits)

lemma times_fresh_times: "map snd (fresh_times clk n kvs) = map clk [n ..< n + length kvs]"
proof (induction clk n kvs rule: fresh_times.induct)
  case (1 clk n)
  then show ?case by simp
next
  case (2 clk n k v kvs)
  then show ?case by (simp add: upt_rec)
qed

lemma sorted_fresh_times:
  assumes "mono clk"
  shows "sorted (map snd (fresh_times clk n kvs))"
proof -
  have "sorted_wrt (\<lambda>i j. clk i \<le> clk j) [n ..< n + length kvs]"
    using sorted_upt[of n "n + length kvs"] monoD[OF assms]
    by (auto intro: sorted_wrt_mono_rel[where P="(\<le>)"])
  then show ?thesis by (simp add: times_fresh_times sorted_map)
qed

lemma expiry_fresh_entries:
  "(k, e) \<in> set (fresh_entries clk n ttl kvs) \<Longrightarrow>
     \<exists>i\<ge>n. expires_at e = clk i + real_of_int ttl"
proof (induction clk n ttl kvs rule: fresh_entries.induct)
  case (1 clk n ttl)
  then show ?case by simp
next
  case (2 clk n ttl k' v kvs)
  then show ?case by (auto intro: Suc_leD)
qed

lemma filter_not_in_take: "distinct xs \<Longrightarrow> filter (\<lambda>x. x \<notin> set (take q xs)) xs = drop q xs"
proof (induction xs arbitrary: q)
  case Nil
  then show ?case by simp
next
  case (Cons x xs)
  show ?case
  proof (cases q)
    case 0
    then show ?thesis by simp
  next
    case (Suc q')
    have "filter (\<lambda>y. y \<noteq> x \<and> y \<notin> set (take q' xs)) xs = filter (\<lambda>y. y \<notin> set (take q' xs)) xs"
      using Cons.prems by (intro filter_cong) auto
    with Cons Suc show ?thesis by simp
  qed
qed

lemma last_set_evicts:
  fixes s :: "'v multi_level_cache" and kvs :: "(string \<times> 'v) list"
  assumes s: "l1_cache s = fresh_entries clk 0 ttl' kvs"
      "l1_access_times s = fresh_times clk 0 kvs"
      "l2_cache s = []" "l2_access_times s = []"
      "tick s = length kvs" "l1_size s = int (length kvs)"
    and q: "q = length kvs div 4" "int q \<le> l2_size s"
    and keys: "distinct (map fst kvs)" "k \<notin> set (map fst kvs)"
    and clk: "mono clk" "clk (length kvs + 1 + 2 * q) < clk 0 + real_of_int ttl'"
  shows "\<exists>s'. cache_set clk k v ttl s = Inr s' \<and>
           hot_keys s' = drop q (map fst kvs) @ [k] \<and>
           warm_keys s' = take q (map fst kvs)"
proof -
  let ?N = "length kvs"
  let ?s0 = "s\<lparr>tick := Suc (tick s)\<rparr>"
  let ?ks = "take q (map fst kvs)"
  have q_le: "q \<le> ?N" using q(1) by simp
  have len_ks: "length ?ks = q" using q_le by simp
  have slice: "map fst (py_slice_to (l1_size ?s0 div 4) (sort_key snd (l1_access_times ?s0))) = ?ks"
  proof -
    have "l1_size ?s0 div 4 = int q" using s(6) q(1) by (simp add: zdiv_int)
    moreover have "sort_key snd (l1_access_times ?s0) = fresh_times clk 0 kvs"
      using sorted_fresh_times[OF clk(1), of 0 kvs] s(2) by (simp add: sort_key_id_if_sorted)
    moreover have "map fst (fresh_times clk 0 kvs) = map fst kvs"
      using keys_fresh_times[of clk 0 kvs] by (simp add: dict_keys_def)
    ultimately show ?thesis by (simp add: py_slice_to_def flip: take_map)
  qed
  have ensure: "ensure_l1_space clk ?s0 = evict_loop clk ?ks ?s0"
    using s(1,6) slice by (simp add: ensure_l1_space_def evict_l1_to_l2_def Let_def)
  have "\<exists>s'. evict_loop clk ?ks ?s0 = Inr s' \<and>
           dict_keys (l1_cache s') = filter (\<lambda>k. k \<notin> set ?ks) (dict_keys (l1_cache ?s0)) \<and>
           dict_keys (l1_access_times s') = dict_keys (l1_cache s') \<and>
           dict_keys (l2_cache s') = dict_keys (l2_cache ?s0) @ ?ks"
  proof (rule evict_loop_live)
    show "distinct ?ks" using keys(1) by (rule distinct_take)
    show "set ?ks \<subseteq> set (dict_keys (l1_cache ?s0))"
      using s(1) by (auto dest: in_set_takeD)
    show "dict_keys (l1_access_times ?s0) = dict_keys (l1_cache ?s0)" using s(1,2) by simp
    show "set ?ks \<inter> set (dict_keys (l2_cache ?s0)) = {}" using s(3) by (simp add: dict_keys_def)
    show "dict_keys (l2_access_times ?s0) = dict_keys (l2_cache ?s0)"
      using s(3,4) by (simp add: dict_keys_def)
    show "int (length (l2_cache ?s0)) + int (length ?ks) \<le> l2_size ?s0"
      using s(3) q(2) len_ks by simp
    show "\<forall>k\<in>set ?ks. \<forall>e. dict_get (l1_cache ?s0) k = Some e
        \<longrightarrow> clk (tick ?s0 + 2 * length ?ks) < expires_at e"
    proof (intro ballI allI impI)
      fix k' e assume "dict_get (l1_cache ?s0) k' = Some e"
      then have "(k', e) \<in> set (fresh_entries clk 0 ttl' kvs)"
        using s(1) by (auto simp: dict_get_def dest: map_of_SomeD)
      from expiry_fresh_entries[OF this]
      obtain i where "expires_at e = clk i + real_of_int ttl'" by blast
      moreover have "clk 0 \<le> clk i" using monoD[OF clk(1), of 0 i] by simp
      ultimately show "clk (tick ?s0 + 2 * length ?ks) < expires_at e"
        using clk(2) s(5) len_ks by simp
    qed
    show "mono clk" by fact
  qed
  then obtain s1 where s1: "evict_loop clk ?ks ?s0 = Inr s1"
    "dict_keys (l1_cache s1) = filter (\<lambda>k. k \<notin> set ?ks) (dict_keys (l1_cache ?s0))"
    "dict_keys (l1_access_times s1) = dict_keys (l1_cache s1)"
    "dict_keys (l2_cache s1) = dict_keys (l2_cache ?s0) @ ?ks"
    by blast
  have hot1: "dict_keys (l1_cache s1) = drop q (map fst kvs)"
    using s1(2) s(1) filter_not_in_take[OF keys(1), of q] by simp
  have warm1: "dict_keys (l2_cache s1) = ?ks"
    using s1(4) s(3) by (simp add: dict_keys_def)
  have "k \<notin> set (dict_keys (l1_cache s1))"
    using hot1 keys(2) by (auto dest: in_set_dropD)
  then show ?thesis
    using hot1 warm1
    by (simp add: cache_set_def time_time_def Let_def ensure s1(1) hot_keys_def warm_keys_def
        dict_keys_set)
qed

subsection \<open>The capacity bound\<close>

lemma length_discard_le: "length (dict_discard k d) \<le> length d"
  by (simp add: dict_discard_def length_delete_le)

lemma length_discard_less: "k \<in> set (dict_keys d) \<Longrightarrow> length (dict_discard k d) < length d"
  by (induction d) (auto simp: dict_keys_def dict_discard_def intro: le_imp_less_Suc length_delete_le)

lemma length_dict_set_le: "length (dict_set k v d) \<le> Suc (length d)"
  by (induction d) (simp_all add: dict_set_def)

lemma sizes_l2_evict_loop [simp]:
  "l1_size (l2_evict_loop keys s) = l1_size s"
  "l2_size (l2_evict_loop keys s) = l2_size s"
  by (induction keys arbitrary: s) (simp_all add: bump_evictions_def)

lemma length_l2_evict_loop: "length (l2_cache (l2_evict_loop keys s)) \<le> length (l2_cache s)"
proof (induction keys arbitrary: s)
  case Nil
  then show ?case by simp
next
  case (Cons key keys)
  have "length (l2_cache (l2_evict_loop (key # keys) s)) \<le> length (dict_discard key (l2_cache s))"
    using Cons.IH[of "bump_evictions (s\<lparr>l2_cache := dict_discard key (l2_cache s),
             l2_access_times := dict_discard key (l2_access_times s)\<rparr>)"]
    by (simp add: bump_evictions_def)
  then show ?case using length_discard_le[of key "l2_cache s"] by simp
qed

lemma length_l2_evict_loop_less:
  assumes "key \<in> set (dict_keys (l2_cache s))"
  shows "length (l2_cache (l2_evict_loop (key # keys) s)) < length (l2_cache s)"
proof -
  have "length (l2_cache (l2_evict_loop (key # keys) s)) \<le> length (dict_discard key (l2_cache s))"
    using length_l2_evict_loop[of keys "bump_evictions (s\<lparr>l2_cache := dict_discard key (l2_cache s),
             l2_access_times := dict_discard key (l2_access_times s)\<rparr>)"]
    by (simp add: bump_evictions_def)
  then show ?thesis using length_discard_less[OF assms] by simp
qed

lemma slice_nonempty:
  assumes "1 \<le> n" "xs \<noteq> []"
  shows "py_slice_to n xs = hd xs # tl (py_slice_to n xs)"
proof -
  obtain m where "nat n = Suc m" using assms(1) by (cases "nat n") auto
  then show ?thesis using assms by (cases xs) (simp_all add: py_slice_to_def)
qed

lemma sizes_ensure_l2_space [simp]:
  "l1_size (ensure_l2_space s) = l1_size s"
  "l2_size (ensure_l2_space s) = l2_size s"
  by (simp_all add: ensure_l2_space_def Let_def)

lemma ensure_l2_space_room:
  assumes "wf_cache s" "4 \<le> l2_size s" "int (length (l2_cache s)) \<le> l2_size s"
  shows "int (length (l2_cache (ensure_l2_space s))) < l2_size s"
proof (cases "int (length (l2_cache s)) \<ge> l2_size s")
  case False
  then show ?thesis by (simp add: ensure_l2_space_def)
next
  case True
  let ?sorted = "sort_key snd (l2_access_times s)"
  have "length (l2_access_times s) = length (l2_cache s)"
    using assms(1) by (auto simp add: wf_cache_def dict_keys_def dest: map_eq_imp_length_eq)
  moreover have "0 < length (l2_cache s)" using True assms(2) by linarith
  ultimately have "0 < length ?sorted" by simp
  then have ne: "?sorted \<noteq> []" by (rule length_greater_0_conv[THEN iffD1])
  have q: "1 \<le> l2_size s div 4" using assms(2) by simp
  from slice_nonempty[OF q ne]
  obtain rest where sl: "py_slice_to (l2_size s div 4) ?sorted = hd ?sorted # rest" by blast
  have "hd ?sorted \<in> set ?sorted" using ne by (rule hd_in_set)
  then have "hd ?sorted \<in> set (l2_access_times s)" by simp
  then have "fst (hd ?sorted) \<in> set (dict_keys (l2_access_times s))"
    by (simp add: dict_keys_def)
  then have "fst (hd ?sorted) \<in> set (dict_keys (l2_cache s))"
    using assms(1) by (simp add: wf_cache_def)
  from length_l2_evict_loop_less[OF this, of "map fst rest"]
  have lt: "length (l2_cache (l2_evict_loop (fst (hd ?sorted) # map fst rest) s))
              < length (l2_cache s)" .
  have ev: "ensure_l2_space s = l2_evict_loop (fst (hd ?sorted) # map fst rest) s"
    using True by (simp add: ensure_l2_space_def Let_def sl)
  show ?thesis unfolding ev using lt assms(3) by linarith
qed

lemma demote_frame [simp]:
  "l1_cache (demote clk key e s) = l1_cache s"
  "l1_size (demote clk key e s) = l1_size s"
  "l2_size (demote clk key e s) = l2_size s"
  by (simp_all add: demote_def time_time_def Let_def bump_evictions_def)

lemma demote_capacity:
  assumes "wf_cache s" "4 \<le> l2_size s" "int (length (l2_cache s)) \<le> l2_size s"
  shows "int (length (l2_cache (demote clk key e s))) \<le> l2_size s"
proof -
  let ?s1 = "s\<lparr>tick := Suc (tick s)\<rparr>"
  have "int (length (l2_cache (ensure_l2_space ?s1))) < l2_size ?s1"
    using assms by (intro ensure_l2_space_room) simp_all
  then have "int (length (dict_set key e (l2_cache (ensure_l2_space ?s1)))) \<le> l2_size s"
    using length_dict_set_le[of key e "l2_cache (ensure_l2_space ?s1)"] by simp
  then show ?thesis
    using assms(3) by (simp add: demote_def time_time_def Let_def bump_evictions_def)
qed

lemma evict_entry_capacity:
  assumes "within_capacity a b s" "4 \<le> b"
  shows "\<exists>s'. evict_entry clk key s = Inr s' \<and> wf_cache s' \<and>
           l1_size s' = a \<and> l2_size s' = b \<and>
           length (l1_cache s') \<le> length (l1_cache s) \<and>
           (key \<in> set (dict_keys (l1_cache s)) \<longrightarrow> length (l1_cache s') < length (l1_cache s)) \<and>
           int (length (l2_cache s')) \<le> b"
proof (cases "dict_get (l1_cache s) key")
  case None
  then have "key \<notin> set (dict_keys (l1_cache s))" by (simp add: dict_get_None_iff)
  then show ?thesis
    using assms None by (simp add: evict_entry_def within_capacity_def)
next
  case (Some e)
  have wf: "wf_cache s" using assms(1) by (simp add: within_capacity_def)
  let ?s1 = "s\<lparr>l1_cache := dict_discard key (l1_cache s),
               l1_access_times := dict_discard key (l1_access_times s)\<rparr>"
  have wf1: "wf_cache ?s1" using wf by (rule wf_l1_remove)
  have in1: "key \<in> set (dict_keys (l1_cache s))" using Some by (rule dict_get_Some_in)
  then have pop: "dict_pop key (l1_access_times s) = Inr (dict_discard key (l1_access_times s))"
    using wf by (simp add: dict_pop_def dict_in_def wf_cache_def dict_discard_def)
  have ev: "evict_entry clk key s = Inr (demote clk key e ?s1)"
    by (simp add: evict_entry_def Some pop)
  have "int (length (l2_cache (demote clk key e ?s1))) \<le> l2_size ?s1"
    using wf1 assms by (intro demote_capacity) (simp_all add: within_capacity_def)
  moreover have "length (l1_cache (demote clk key e ?s1)) < length (l1_cache s)"
    using length_discard_less[OF in1] by simp
  moreover have "wf_cache (demote clk key e ?s1)" using wf1 by (rule wf_demote)
  ultimately show ?thesis
    using assms(1) by (simp add: ev within_capacity_def)
qed

lemma evict_loop_capacity:
  assumes "within_capacity a b s" "4 \<le> b"
  shows "\<exists>s'. evict_loop clk keys s = Inr s' \<and> within_capacity a b s' \<and>
           length (l1_cache s') \<le> length (l1_cache s) \<and>
           (keys \<noteq> [] \<and> hd keys \<in> set (dict_keys (l1_cache s))
              \<longrightarrow> length (l1_cache s') < length (l1_cache s))"
  using assms(1)
proof (induction keys arbitrary: s)
  case Nil
  then show ?case by simp
next
  case (Cons key keys)
  from evict_entry_capacity[OF Cons.prems assms(2), of clk key]
  obtain s1 where s1: "evict_entry clk key s = Inr s1" "wf_cache s1"
    "l1_size s1 = a" "l2_size s1 = b"
    "length (l1_cache s1) \<le> length (l1_cache s)"
    "key \<in> set (dict_keys (l1_cache s)) \<longrightarrow> length (l1_cache s1) < length (l1_cache s)"
    "int (length (l2_cache s1)) \<le> b"
    by blast
  have "within_capacity a b s1"
    using s1 Cons.prems by (simp add: within_capacity_def)
  from Cons.IH[OF this]
  obtain s' where s': "evict_loop clk keys s1 = Inr s'" "within_capacity a b s'"
    "length (l1_cache s') \<le> length (l1_cache s1)"
    by blast
  with s1 show ?case by auto
qed

lemma ensure_l1_space_room:
  assumes "within_capacity a b s" "4 \<le> a" "4 \<le> b"
  shows "\<exists>s'. ensure_l1_space clk s = Inr s' \<and> within_capacity a b s' \<and>
           int (length (l1_cache s')) < a"
proof (cases "int (length (l1_cache s)) \<ge> l1_size s")
  case False
  then show ?thesis using assms(1) by (simp add: ensure_l1_space_def within_capacity_def)
next
  case True
  let ?sorted = "sort_key snd (l1_access_times s)"
  have wf: "wf_cache s" and a: "l1_size s = a" and le: "int (length (l1_cache s)) \<le> a"
    using assms(1) by (simp_all add: within_capacity_def)
  have "length (l1_access_times s) = length (l1_cache s)"
    using wf by (auto simp add: wf_cache_def dict_keys_def dest: map_eq_imp_length_eq)
  moreover have "0 < length (l1_cache s)" using True assms(2) a by linarith
  ultimately have "0 < length ?sorted" by simp
  then have ne: "?sorted \<noteq> []" by (rule length_greater_0_conv[THEN iffD1])
  have q: "1 \<le> l1_size s div 4" using assms(2) a by simp
  from slice_nonempty[OF q ne]
  obtain rest where sl: "py_slice_to (l1_size s div 4) ?sorted = hd ?sorted # rest" by blast
  have "hd ?sorted \<in> set ?sorted" using ne by (rule hd_in_set)
  then have "hd ?sorted \<in> set (l1_access_times s)" by simp
  then have "fst (hd ?sorted) \<in> set (dict_keys (l1_access_times s))"
    by (simp add: dict_keys_def)
  then have in1: "fst (hd ?sorted) \<in> set (dict_keys (l1_cache s))"
    using wf by (simp add: wf_cache_def)
  have ev: "ensure_l1_space clk s = evict_loop clk (fst (hd ?sorted) # map fst rest) s"
    using True by (simp add: ensure_l1_space_def evict_l1_to_l2_def Let_def sl)
  from evict_loop_capacity[OF assms(1) assms(3), of clk "fst (hd ?sorted) # map fst rest"] in1
  obtain s' where "evict_loop clk (fst (hd ?sorted) # map fst rest) s = Inr s'"
    "within_capacity a b s'" "length (l1_cache s') < length (l1_cache s)"
    by auto
  then show ?thesis unfolding ev using le by auto
qed

lemma within_tick [simp]: "within_capacity a b (s\<lparr>tick := n\<rparr>) = within_capacity a b s"
  by (simp add: within_capacity_def)

lemma within_stats [simp]: "within_capacity a b (s\<lparr>stats := st\<rparr>) = within_capacity a b s"
  by (simp add: within_capacity_def)

lemma within_l1_remove:
  "within_capacity a b s \<Longrightarrow>
   within_capacity a b (s\<lparr>l1_cache := dict_discard key (l1_cache s),
                          l1_access_times := dict_discard key (l1_access_times s)\<rparr>)"
  using length_discard_le[of key "l1_cache s"] wf_l1_remove[of s key]
  by (simp add: within_capacity_def)

lemma within_l2_remove:
  "within_capacity a b s \<Longrightarrow>
   within_capacity a b (s\<lparr>l2_cache := dict_discard key (l2_cache s),
                          l2_access_times := dict_discard key (l2_access_times s)\<rparr>)"
  using length_discard_le[of key "l2_cache s"] wf_l2_remove[of s key]
  by (simp add: within_capacity_def)

lemma within_l1_insert:
  assumes "within_capacity a b s" "int (length (l1_cache s)) < a"
  shows "within_capacity a b (s\<lparr>l1_cache := dict_set key e (l1_cache s),
                                 l1_access_times := dict_set key t (l1_access_times s)\<rparr>)"
proof -
  have "wf_cache (s\<lparr>l1_cache := dict_set key e (l1_cache s),
                     l1_access_times := dict_set key t (l1_access_times s)\<rparr>)"
    using assms(1) by (simp add: within_capacity_def wf_cache_def dict_keys_set)
  then show ?thesis
    using assms length_dict_set_le[of key e "l1_cache s"] by (simp add: within_capacity_def)
qed

lemma cache_set_capacity:
  assumes "within_capacity a b s" "4 \<le> a" "4 \<le> b"
  shows "\<exists>s'. cache_set clk key v ttl s = Inr s' \<and> within_capacity a b s'"
proof -
  have "within_capacity a b (s\<lparr>tick := Suc (tick s)\<rparr>)" using assms(1) by simp
  from ensure_l1_space_room[OF this assms(2,3), of clk]
  obtain s1 where s1: "ensure_l1_space clk (s\<lparr>tick := Suc (tick s)\<rparr>) = Inr s1"
    "within_capacity a b s1" "int (length (l1_cache s1)) < a" by blast
  from within_l1_insert[OF s1(2,3)] show ?thesis
    by (simp add: cache_set_def time_time_def Let_def s1(1))
qed

lemma promote_to_l1_capacity:
  assumes "within_capacity a b s" "4 \<le> a" "4 \<le> b"
  shows "\<exists>s'. promote_to_l1 clk key e s = Inr s' \<and> within_capacity a b s'"
proof -
  from ensure_l1_space_room[OF assms, of clk]
  obtain s1 where s1: "ensure_l1_space clk s = Inr s1"
    "within_capacity a b s1" "int (length (l1_cache s1)) < a" by blast
  let ?s2 = "s1\<lparr>l1_cache := dict_set key e (l1_cache s1),
               l1_access_times := dict_set key (clk (tick s1)) (l1_access_times s1)\<rparr>"
  have "within_capacity a b ?s2" using s1(2,3) by (rule within_l1_insert)
  from within_l2_remove[OF this, of key] show ?thesis
    by (simp add: promote_to_l1_def time_time_def Let_def s1(1) within_capacity_def wf_cache_def)
qed

lemma get_l2_capacity:
  assumes "within_capacity a b s" "4 \<le> a" "4 \<le> b"
  shows "\<exists>r s'. get_l2 clk key t s = Inr (r, s') \<and> within_capacity a b s'"
proof (cases "dict_get (l2_cache s) key")
  case None
  then show ?thesis using assms(1) by (simp add: get_l2_def get_miss_def)
next
  case (Some e)
  show ?thesis
  proof (cases "t < expires_at e")
    case True
    from promote_to_l1_capacity[OF assms, of clk key e]
    obtain s1 where "promote_to_l1 clk key e s = Inr s1" "within_capacity a b s1" by blast
    then show ?thesis using Some True by (simp add: get_l2_def)
  next
    case False
    then show ?thesis
      using Some within_l2_remove[OF assms(1), of key] by (simp add: get_l2_def get_miss_def)
  qed
qed

lemma get_capacity:
  assumes "within_capacity a b s" "4 \<le> a" "4 \<le> b"
  shows "\<exists>r s'. get clk key s = Inr (r, s') \<and> within_capacity a b s'"
proof -
  define s1 where "s1 = s\<lparr>tick := Suc (tick s)\<rparr>"
  have w1: "within_capacity a b s1" using assms(1) by (simp add: s1_def)
  show ?thesis
  proof (cases "dict_get (l1_cache s1) key")
    case None
    then show ?thesis
      using get_l2_capacity[OF w1 assms(2,3), of clk key "clk (tick s)"]
      by (simp add: get_def time_time_def s1_def)
  next
    case (Some e)
    show ?thesis
    proof (cases "clk (tick s) < expires_at e")
      case True
      have "key \<in> set (dict_keys (l1_cache s1))" using Some by (rule dict_get_Some_in)
      then have "within_capacity a b
          (s1\<lparr>l1_access_times := dict_set key (clk (tick s)) (l1_access_times s1)\<rparr>)"
        using w1 by (simp add: within_capacity_def wf_cache_def dict_keys_set)
      then show ?thesis
        using Some True by (simp add: get_def time_time_def s1_def)
    next
      case False
      from get_l2_capacity[OF within_l1_remove[OF w1, of key] assms(2,3), of clk key "clk (tick s)"]
      show ?thesis
        using Some False by (simp add: get_def time_time_def s1_def)
    qed
  qed
qed

lemma invalidate_key_capacity:
  "within_capacity a b (snd ns) \<Longrightarrow> within_capacity a b (snd (invalidate_key key ns))"
proof -
  assume w: "within_capacity a b (snd ns)"
  obtain n s where ns: "ns = (n, s)" by (cases ns)
  let ?s1 = "if dict_in key (l1_cache s)
             then s\<lparr>l1_cache := dict_discard key (l1_cache s),
                    l1_access_times := dict_discard key (l1_access_times s)\<rparr> else s"
  have w1: "within_capacity a b ?s1" using w within_l1_remove[of a b s key] by (simp add: ns)
  have "within_capacity a b (if dict_in key (l2_cache ?s1)
             then ?s1\<lparr>l2_cache := dict_discard key (l2_cache ?s1),
                    l2_access_times := dict_discard key (l2_access_times ?s1)\<rparr> else ?s1)"
    using w1 within_l2_remove[OF w1, of key] by (simp only: if_split) blast
  then show ?thesis by (simp add: invalidate_key_def ns Let_def split: if_splits)
qed

lemma remove_key_capacity:
  "within_capacity a b (snd ns) \<Longrightarrow> within_capacity a b (snd (remove_key key ns))"
proof -
  assume w: "within_capacity a b (snd ns)"
  obtain n s where ns: "ns = (n, s)" by (cases ns)
  from w have "within_capacity a b s" by (simp add: ns)
  from within_l2_remove[OF within_l1_remove[OF this, of key], of key]
  show ?thesis by (simp add: remove_key_def ns)
qed

lemma invalidate_capacity:
  assumes "within_capacity a b s"
  shows "within_capacity a b (snd (invalidate pattern keys s))"
proof -
  have k: "within_capacity a b (snd (foldl (\<lambda>ns key. invalidate_key key ns) ns ks))"
    if "within_capacity a b (snd ns)" for ns :: "nat \<times> 'a multi_level_cache" and ks
    using that by (induction ks arbitrary: ns) (simp_all add: invalidate_key_capacity)
  have r: "within_capacity a b (snd (foldl (\<lambda>ns key. remove_key key ns) ns ks))"
    if "within_capacity a b (snd ns)" for ns :: "nat \<times> 'a multi_level_cache" and ks
    using that by (induction ks arbitrary: ns) (simp_all add: remove_key_capacity)
  have "within_capacity a b (snd (invalidate_keys ks s))" for ks
    unfolding invalidate_keys_def using assms by (intro k) simp
  moreover have "within_capacity a b (snd (invalidate_pattern p s))" for p
    unfolding invalidate_pattern_def Let_def using assms by (intro r) simp
  ultimately show ?thesis
    using assms by (simp add: invalidate_def split_beta split: option.splits list.splits)
qed

lemma step_capacity:
  assumes "within_capacity a b s" "4 \<le> a" "4 \<le> b"
  shows "\<exists>r s'. step clk op s = Inr (r, s') \<and> within_capacity a b s'"
proof (cases op)
  case (Get key)
  from get_capacity[OF assms, of clk key] show ?thesis using Get by auto
next
  case (Set key v ttl)
  from cache_set_capacity[OF assms, of clk key v ttl] show ?thesis using Set by auto
next
  case (Invalidate pattern keys)
  from invalidate_capacity[OF assms(1), of pattern keys] show ?thesis
    using Invalidate by (simp add: split_beta)
qed

lemma run_capacity:
  assumes "4 \<le> a" "4 \<le> b"
  shows "within_capacity a b s \<Longrightarrow>
         \<exists>rs s'. run clk ops s = Inr (rs, s') \<and> within_capacity a b s'"
proof (induction ops arbitrary: s)
  case Nil
  then show ?case by simp
next
  case (Cons op ops)
  from step_capacity[OF Cons.prems assms, of clk op]
  obtain r s1 where "step clk op s = Inr (r, s1)" "within_capacity a b s1" by blast
  with Cons.IH[of s1] show ?case by auto
qed

subsection \<open>What get returns\<close>

lemma get_l2_returns_unexpired:
  assumes "get_l2 clk key t s = Inr (Some v, s')"
  shows "\<exists>e. dict_get (l2_cache s) key = Some e \<and> entry_value e = v \<and> t < expires_at e"
  using assms
  by (auto simp add: get_l2_def get_miss_def split: option.splits if_splits sum.splits)

lemma get_returns_unexpired:
  assumes "get clk key s = Inr (Some v, s')"
  shows "\<exists>e. (dict_get (l1_cache s) key = Some e \<or> dict_get (l2_cache s) key = Some e) \<and>
             entry_value e = v \<and> clk (tick s) < expires_at e"
proof (cases "dict_get (l1_cache s) key")
  case None
  with assms have "get_l2 clk key (clk (tick s)) (s\<lparr>tick := Suc (tick s)\<rparr>) = Inr (Some v, s')"
    by (simp add: get_def time_time_def)
  from get_l2_returns_unexpired[OF this] show ?thesis by auto
next
  case (Some e1)
  show ?thesis
  proof (cases "clk (tick s) < expires_at e1")
    case True
    with assms Some show ?thesis by (auto simp add: get_def time_time_def)
  next
    case False
    with assms Some
    have "get_l2 clk key (clk (tick s))
            (s\<lparr>tick := Suc (tick s), l1_cache := dict_discard key (l1_cache s),
               l1_access_times := dict_discard key (l1_access_times s)\<rparr>) = Inr (Some v, s')"
      by (simp add: get_def time_time_def)
    from get_l2_returns_unexpired[OF this] show ?thesis by auto
  qed
qed

lemma set_then_get:
  assumes "cache_set clk key v ttl s = Inr s1"
    "clk (tick s1) < clk (tick s) + real_of_int (ttl_or_default ttl s)"
  shows "\<exists>s2. get clk key s1 = Inr (Some v, s2)"
proof -
  let ?e = "\<lparr>entry_value = v, expires_at = clk (tick s) + real_of_int (ttl_or_default ttl s),
             created_at = clk (tick s), access_count = 1\<rparr>"
  have "dict_get (l1_cache s1) key = Some ?e" using assms(1) by (rule cache_set_stores)
  moreover have "clk (tick s1) < expires_at ?e" using assms(2) by simp
  ultimately show ?thesis
    using get_hot_hit[where clk=clk and s=s1 and key=key and e="?e"] by auto
qed

lemma set_then_get_after_ttl:
  assumes "cache_set clk key v ttl s = Inr s1"
    "clk (tick s) + real_of_int (ttl_or_default ttl s) \<le> clk (tick s1)"
    "\<not> dict_in key (l2_cache s1)"
  shows "\<exists>s2. get clk key s1 = Inr (None, s2)"
proof -
  let ?e = "\<lparr>entry_value = v, expires_at = clk (tick s) + real_of_int (ttl_or_default ttl s),
             created_at = clk (tick s), access_count = 1\<rparr>"
  have "dict_get (l1_cache s1) key = Some ?e" using assms(1) by (rule cache_set_stores)
  moreover have "expires_at ?e \<le> clk (tick s1)" using assms(2) by simp
  ultimately show ?thesis
    using get_hot_expired_warm_absent[where clk=clk and s=s1 and key=key and e="?e"] assms(3)
    by auto
qed

subsection \<open>Single-tier membership under get and invalidate\<close>

lemma hot_l2_evict_loop [simp]: "hot_keys (l2_evict_loop keys s) = hot_keys s"
  by (simp add: hot_keys_def)

lemma warm_l2_evict_loop: "set (warm_keys (l2_evict_loop keys s)) \<subseteq> set (warm_keys s)"
proof (induction keys arbitrary: s)
  case Nil
  then show ?case by simp
next
  case (Cons key keys)
  from Cons.IH[of "bump_evictions (s\<lparr>l2_cache := dict_discard key (l2_cache s),
             l2_access_times := dict_discard key (l2_access_times s)\<rparr>)"]
  show ?case by (auto simp add: warm_keys_def bump_evictions_def dict_keys_discard)
qed

lemma warm_ensure_l2_space: "set (warm_keys (ensure_l2_space s)) \<subseteq> set (warm_keys s)"
  by (simp add: ensure_l2_space_def Let_def warm_l2_evict_loop)

lemma warm_demote:
  "set (warm_keys (demote clk key e s)) \<subseteq> insert key (set (warm_keys s))"
  using warm_ensure_l2_space[of "s\<lparr>tick := Suc (tick s)\<rparr>"]
  by (auto simp add: demote_def time_time_def Let_def bump_evictions_def warm_keys_def
      dict_keys_set split: if_splits)

lemma hot_demote [simp]: "hot_keys (demote clk key e s) = hot_keys s"
  by (simp add: hot_keys_def)

lemma evict_entry_single_tier:
  assumes "single_tier s"
  shows "\<exists>s'. evict_entry clk key s = Inr s' \<and> single_tier s'"
proof (cases "dict_get (l1_cache s) key")
  case None
  then show ?thesis using assms by (simp add: evict_entry_def)
next
  case (Some e)
  have wf: "wf_cache s" using assms by (simp add: single_tier_def)
  let ?s1 = "s\<lparr>l1_cache := dict_discard key (l1_cache s),
               l1_access_times := dict_discard key (l1_access_times s)\<rparr>"
  have "key \<in> set (dict_keys (l1_cache s))" using Some by (rule dict_get_Some_in)
  then have pop: "dict_pop key (l1_access_times s) = Inr (dict_discard key (l1_access_times s))"
    using wf by (simp add: dict_pop_def dict_in_def wf_cache_def dict_discard_def)
  have ev: "evict_entry clk key s = Inr (demote clk key e ?s1)"
    by (simp add: evict_entry_def Some pop)
  have "wf_cache (demote clk key e ?s1)" using wf_l1_remove[OF wf, of key] by (rule wf_demote)
  moreover have "set (hot_keys (demote clk key e ?s1)) = set (hot_keys s) - {key}"
    by (simp add: hot_keys_def dict_keys_discard)
  moreover have "set (warm_keys (demote clk key e ?s1)) \<subseteq> insert key (set (warm_keys s))"
    using warm_demote[of clk key e ?s1] by (simp add: warm_keys_def)
  ultimately show ?thesis using assms by (auto simp add: ev single_tier_def)
qed

lemma evict_loop_single_tier:
  "single_tier s \<Longrightarrow> \<exists>s'. evict_loop clk keys s = Inr s' \<and> single_tier s'"
proof (induction keys arbitrary: s)
  case Nil
  then show ?case by simp
next
  case (Cons key keys)
  from evict_entry_single_tier[OF Cons.prems, of clk key]
  obtain s1 where "evict_entry clk key s = Inr s1" "single_tier s1" by blast
  with Cons.IH[of s1] show ?case by simp
qed

lemma ensure_l1_space_single_tier:
  "single_tier s \<Longrightarrow> \<exists>s'. ensure_l1_space clk s = Inr s' \<and> single_tier s'"
  by (simp add: ensure_l1_space_def evict_l1_to_l2_def Let_def evict_loop_single_tier)

lemma single_tier_tick [simp]: "single_tier (s\<lparr>tick := n\<rparr>) = single_tier s"
  by (simp add: single_tier_def hot_keys_def warm_keys_def)

lemma single_tier_stats [simp]: "single_tier (s\<lparr>stats := st\<rparr>) = single_tier s"
  by (simp add: single_tier_def hot_keys_def warm_keys_def)

lemma single_tier_l1_remove:
  "single_tier s \<Longrightarrow>
   single_tier (s\<lparr>l1_cache := dict_discard key (l1_cache s),
                  l1_access_times := dict_discard key (l1_access_times s)\<rparr>)"
  using wf_l1_remove[of s key]
  by (auto simp add: single_tier_def hot_keys_def warm_keys_def dict_keys_discard)

lemma single_tier_l2_remove:
  "single_tier s \<Longrightarrow>
   single_tier (s\<lparr>l2_cache := dict_discard key (l2_cache s),
                  l2_access_times := dict_discard key (l2_access_times s)\<rparr>)"
  using wf_l2_remove[of s key]
  by (auto simp add: single_tier_def hot_keys_def warm_keys_def dict_keys_discard)

lemma promote_to_l1_single_tier:
  assumes "single_tier s"
  shows "\<exists>s'. promote_to_l1 clk key e s = Inr s' \<and> single_tier s'"
proof -
  from ensure_l1_space_single_tier[OF assms, of clk]
  obtain s1 where s1: "ensure_l1_space clk s = Inr s1" "single_tier s1" by blast
  from s1(2) show ?thesis
    by (auto simp add: promote_to_l1_def s1(1) time_time_def Let_def single_tier_def
        wf_cache_def hot_keys_def warm_keys_def dict_keys_set dict_keys_discard distinct_removeAll)
qed

lemma get_l2_single_tier:
  assumes "single_tier s"
  shows "\<exists>r s'. get_l2 clk key t s = Inr (r, s') \<and> single_tier s'"
proof (cases "dict_get (l2_cache s) key")
  case None
  then show ?thesis using assms by (simp add: get_l2_def get_miss_def)
next
  case (Some e)
  show ?thesis
  proof (cases "t < expires_at e")
    case True
    from promote_to_l1_single_tier[OF assms, of clk key e]
    obtain s1 where "promote_to_l1 clk key e s = Inr s1" "single_tier s1" by blast
    then show ?thesis using Some True by (simp add: get_l2_def)
  next
    case False
    then show ?thesis
      using Some single_tier_l2_remove[OF assms, of key] by (simp add: get_l2_def get_miss_def)
  qed
qed

lemma get_single_tier:
  assumes "single_tier s"
  shows "\<exists>r s'. get clk key s = Inr (r, s') \<and> single_tier s'"
proof -
  define s1 where "s1 = s\<lparr>tick := Suc (tick s)\<rparr>"
  have w1: "single_tier s1" using assms by (simp add: s1_def)
  show ?thesis
  proof (cases "dict_get (l1_cache s1) key")
    case None
    then show ?thesis
      using get_l2_single_tier[OF w1, of clk key "clk (tick s)"]
      by (simp add: get_def time_time_def s1_def)
  next
    case (Some e)
    show ?thesis
    proof (cases "clk (tick s) < expires_at e")
      case True
      have "key \<in> set (dict_keys (l1_cache s1))" using Some by (rule dict_get_Some_in)
      then have "single_tier
          (s1\<lparr>l1_access_times := dict_set key (clk (tick s)) (l1_access_times s1)\<rparr>)"
        using w1 by (simp add: single_tier_def wf_cache_def hot_keys_def warm_keys_def dict_keys_set)
      then show ?thesis
        using Some True by (simp add: get_def time_time_def s1_def)
    next
      case False
      from get_l2_single_tier[OF single_tier_l1_remove[OF w1, of key], of clk key "clk (tick s)"]
      show ?thesis
        using Some False by (simp add: get_def time_time_def s1_def)
    qed
  qed
qed

lemma invalidate_single_tier:
  assumes "single_tier s"
  shows "single_tier (snd (invalidate pattern keys s))"
proof -
  have ik: "single_tier (snd (invalidate_key key ns))" if "single_tier (snd ns)"
    for ns :: "nat \<times> 'a multi_level_cache" and key
  proof -
    obtain n s where ns: "ns = (n, s)" by (cases ns)
    from that have w: "single_tier s" by (simp add: ns)
    let ?s1 = "if dict_in key (l1_cache s)
               then s\<lparr>l1_cache := dict_discard key (l1_cache s),
                      l1_access_times := dict_discard key (l1_access_times s)\<rparr> else s"
    have w1: "single_tier ?s1" using w single_tier_l1_remove[of s key] by simp
    have "single_tier (if dict_in key (l2_cache ?s1)
               then ?s1\<lparr>l2_cache := dict_discard key (l2_cache ?s1),
                      l2_access_times := dict_discard key (l2_access_times ?s1)\<rparr> else ?s1)"
      using w1 single_tier_l2_remove[OF w1, of key] by (simp only: if_split) blast
    then show ?thesis by (simp add: invalidate_key_def ns Let_def split: if_splits)
  qed
  have rk: "single_tier (snd (remove_key key ns))" if "single_tier (snd ns)"
    for ns :: "nat \<times> 'a multi_level_cache" and key
  proof -
    obtain n s where ns: "ns = (n, s)" by (cases ns)
    from that have "single_tier s" by (simp add: ns)
    from single_tier_l2_remove[OF single_tier_l1_remove[OF this, of key], of key]
    show ?thesis by (simp add: remove_key_def ns)
  qed
  have k: "single_tier (snd (foldl (\<lambda>ns key. invalidate_key key ns) ns ks))"
    if "single_tier (snd ns)" for ns :: "nat \<times> 'a multi_level_cache" and ks
    using that by (induction ks arbitrary: ns) (simp_all add: ik)
  have r: "single_tier (snd (foldl (\<lambda>ns key. remove_key key ns) ns ks))"
    if "single_tier (snd ns)" for ns :: "nat \<times> 'a multi_level_cache" and ks
    using that by (induction ks arbitrary: ns) (simp_all add: rk)
  have "single_tier (snd (invalidate_keys ks s))" for ks
    unfolding invalidate_keys_def using assms by (intro k) simp
  moreover have "single_tier (snd (invalidate_pattern p s))" for p
    unfolding invalidate_pattern_def Let_def using assms by (intro r) simp
  ultimately show ?thesis
    using assms by (simp add: invalidate_def split_beta split: option.splits list.splits)
qed

subsection \<open>Both branches of invalidate, exactly\<close>

lemma dict_discard_filter: "dict_discard k d = filter (\<lambda>kv. fst kv \<noteq> k) d"
  by (induction d) (auto simp: dict_discard_def)

lemma dict_discard_absent: "k \<notin> set (dict_keys d) \<Longrightarrow> dict_discard k d = d"
  by (simp add: dict_discard_def dict_keys_def)

lemma invalidate_key_wf_eq:
  assumes "wf_cache s"
  shows "invalidate_key key (n, s) =
           (n + length (filter (\<lambda>k. k = key) (dict_keys (l1_cache s) @ dict_keys (l2_cache s))),
            without_keys (\<lambda>k. k = key) s)"
proof -
  have d1: "distinct (dict_keys (l1_cache s))" and d2: "distinct (dict_keys (l2_cache s))"
    and k1: "dict_keys (l1_access_times s) = dict_keys (l1_cache s)"
    and k2: "dict_keys (l2_access_times s) = dict_keys (l2_cache s)"
    using assms by (simp_all add: wf_cache_def)
  have c: "length (filter (\<lambda>k. k = key) xs) = (if key \<in> set xs then 1 else 0)"
    if "distinct xs" for xs :: "string list"
    using that by (induction xs) auto
  show ?thesis
  proof (cases "key \<in> set (dict_keys (l1_cache s))")
    case in1: True
    show ?thesis
    proof (cases "key \<in> set (dict_keys (l2_cache s))")
      case True
      with in1 show ?thesis
        by (simp add: invalidate_key_def dict_in_def without_keys_def dict_discard_filter
            c[OF d1] c[OF d2])
    next
      case False
      then have "dict_discard key (l2_cache s) = l2_cache s"
        "dict_discard key (l2_access_times s) = l2_access_times s"
        using k2 by (simp_all add: dict_discard_absent)
      with in1 False show ?thesis
        by (simp add: invalidate_key_def dict_in_def without_keys_def c[OF d1] c[OF d2]
            flip: dict_discard_filter)
    qed
  next
    case out1: False
    then have e1: "dict_discard key (l1_cache s) = l1_cache s"
      "dict_discard key (l1_access_times s) = l1_access_times s"
      using k1 by (simp_all add: dict_discard_absent)
    show ?thesis
    proof (cases "key \<in> set (dict_keys (l2_cache s))")
      case True
      with out1 e1 show ?thesis
        by (simp add: invalidate_key_def dict_in_def without_keys_def c[OF d1] c[OF d2]
            flip: dict_discard_filter)
    next
      case False
      then have "dict_discard key (l2_cache s) = l2_cache s"
        "dict_discard key (l2_access_times s) = l2_access_times s"
        using k2 by (simp_all add: dict_discard_absent)
      with out1 False e1 show ?thesis
        by (simp add: invalidate_key_def dict_in_def without_keys_def c[OF d1] c[OF d2]
            flip: dict_discard_filter)
    qed
  qed
qed

lemma without_keys_twice:
  "without_keys Q (without_keys P s) = without_keys (\<lambda>k. P k \<or> Q k) s"
  by (simp add: without_keys_def)

lemma dict_keys_filter: "dict_keys (filter (\<lambda>kv. Q (fst kv)) d) = filter Q (dict_keys d)"
  by (induction d) (simp_all add: dict_keys_def)

lemma keys_without_keys:
  "dict_keys (l1_cache (without_keys P s)) = filter (\<lambda>k. \<not> P k) (dict_keys (l1_cache s))"
  "dict_keys (l2_cache (without_keys P s)) = filter (\<lambda>k. \<not> P k) (dict_keys (l2_cache s))"
  by (simp_all add: without_keys_def dict_keys_filter[of "\<lambda>k. \<not> P k"])

lemma length_filter_split:
  "length (filter P xs) + length (filter Q (filter (\<lambda>x. \<not> P x) xs))
     = length (filter (\<lambda>x. P x \<or> Q x) xs)"
  by (induction xs) auto

lemma wf_without_keys: "wf_cache s \<Longrightarrow> wf_cache (without_keys P s)"
  by (simp add: wf_cache_def without_keys_def dict_keys_filter[of "\<lambda>k. \<not> P k"])

lemma foldl_invalidate_key_exact:
  "wf_cache s \<Longrightarrow>
   foldl (\<lambda>ns key. invalidate_key key ns) (n, s) ks =
     (n + length (filter (\<lambda>k. k \<in> set ks) (dict_keys (l1_cache s) @ dict_keys (l2_cache s))),
      without_keys (\<lambda>k. k \<in> set ks) s)"
proof (induction ks arbitrary: n s)
  case Nil
  then show ?case by (simp add: without_keys_def)
next
  case (Cons key ks)
  let ?s1 = "without_keys (\<lambda>k. k = key) s"
  have wf1: "wf_cache ?s1" using Cons.prems by (rule wf_without_keys)
  have c1: "length (filter (\<lambda>k. k = key) (dict_keys (l1_cache s)))
            + length (filter (\<lambda>k. k \<in> set ks) (filter (\<lambda>k. k \<noteq> key) (dict_keys (l1_cache s))))
          = length (filter (\<lambda>k. k \<in> set (key # ks)) (dict_keys (l1_cache s)))"
    using length_filter_split[of "\<lambda>k. k = key" "dict_keys (l1_cache s)" "\<lambda>k. k \<in> set ks"]
    by simp
  have c2: "length (filter (\<lambda>k. k = key) (dict_keys (l2_cache s)))
            + length (filter (\<lambda>k. k \<in> set ks) (filter (\<lambda>k. k \<noteq> key) (dict_keys (l2_cache s))))
          = length (filter (\<lambda>k. k \<in> set (key # ks)) (dict_keys (l2_cache s)))"
    using length_filter_split[of "\<lambda>k. k = key" "dict_keys (l2_cache s)" "\<lambda>k. k \<in> set ks"]
    by simp
  have st: "without_keys (\<lambda>k. k \<in> set ks) ?s1 = without_keys (\<lambda>k. k \<in> set (key # ks)) s"
    by (simp add: without_keys_twice)
  show ?case
    using c1 c2
    by (simp add: invalidate_key_wf_eq[OF Cons.prems] Cons.IH[OF wf1] keys_without_keys
        del: set_simps) (simp only: st)
qed

lemma remove_key_eq:
  "remove_key key (n, s) = (Suc n, without_keys (\<lambda>k. k = key) s)"
  by (simp add: remove_key_def without_keys_def dict_discard_filter)

lemma foldl_remove_key_exact:
  "foldl (\<lambda>ns key. remove_key key ns) (n, s) ks
     = (n + length ks, without_keys (\<lambda>k. k \<in> set ks) s)"
proof (induction ks arbitrary: n s)
  case Nil
  then show ?case by (simp add: without_keys_def)
next
  case (Cons key ks)
  have "without_keys (\<lambda>k. k \<in> set ks) (without_keys (\<lambda>k. k = key) s)
          = without_keys (\<lambda>k. k \<in> set (key # ks)) s"
    by (simp add: without_keys_twice)
  then show ?case by (simp add: remove_key_eq Cons.IH del: set_simps)
qed

lemma without_keys_cong:
  assumes "\<And>k. k \<in> set (dict_keys (l1_cache s)) \<union> set (dict_keys (l2_cache s)) \<Longrightarrow> P k = Q k"
    and "wf_cache s"
  shows "without_keys P s = without_keys Q s"
proof -
  from assms(2) have "map fst (l1_access_times s) = map fst (l1_cache s)"
    by (simp add: wf_cache_def dict_keys_def)
  then have "set (map fst (l1_access_times s)) = set (map fst (l1_cache s))"
    by (rule arg_cong)
  then have k1: "fst ` set (l1_access_times s) = fst ` set (l1_cache s)"
    by (simp only: set_map)
  from assms(2) have "map fst (l2_access_times s) = map fst (l2_cache s)"
    by (simp add: wf_cache_def dict_keys_def)
  then have "set (map fst (l2_access_times s)) = set (map fst (l2_cache s))"
    by (rule arg_cong)
  then have k2: "fst ` set (l2_access_times s) = fst ` set (l2_cache s)"
    by (simp only: set_map)
  have a: "filter (\<lambda>kv. \<not> P (fst kv)) (l1_cache s) = filter (\<lambda>kv. \<not> Q (fst kv)) (l1_cache s)"
    using assms(1) by (intro filter_cong) (auto simp: dict_keys_def)
  have b: "filter (\<lambda>kv. \<not> P (fst kv)) (l2_cache s) = filter (\<lambda>kv. \<not> Q (fst kv)) (l2_cache s)"
    using assms(1) by (intro filter_cong) (auto simp: dict_keys_def)
  have c: "filter (\<lambda>kv. \<not> P (fst kv)) (l1_access_times s)
             = filter (\<lambda>kv. \<not> Q (fst kv)) (l1_access_times s)"
  proof (intro filter_cong refl)
    fix kv assume "kv \<in> set (l1_access_times s)"
    then have "fst kv \<in> fst ` set (l1_cache s)" using k1 by (metis imageI)
    then show "(\<not> P (fst kv)) = (\<not> Q (fst kv))" using assms(1) by (simp add: dict_keys_def)
  qed
  have d: "filter (\<lambda>kv. \<not> P (fst kv)) (l2_access_times s)
             = filter (\<lambda>kv. \<not> Q (fst kv)) (l2_access_times s)"
  proof (intro filter_cong refl)
    fix kv assume "kv \<in> set (l2_access_times s)"
    then have "fst kv \<in> fst ` set (l2_cache s)" using k2 by (metis imageI)
    then show "(\<not> P (fst kv)) = (\<not> Q (fst kv))" using assms(1) by (simp add: dict_keys_def)
  qed
  show ?thesis by (simp add: without_keys_def a b c d)
qed

lemma invalidate_pattern_exact:
  assumes "wf_cache s"
  shows "invalidate_pattern p s =
           (length (filter (str_contains p) (dict_keys (l1_cache s) @ dict_keys (l2_cache s))),
            without_keys (str_contains p) s)"
proof -
  let ?rm = "filter (str_contains p) (dict_keys (l1_cache s) @ dict_keys (l2_cache s))"
  have "without_keys (\<lambda>k. k \<in> set ?rm) s = without_keys (str_contains p) s"
    using assms by (intro without_keys_cong) auto
  then show ?thesis
    by (simp add: invalidate_pattern_def foldl_remove_key_exact del: filter_append)
qed

lemma invalidate_keys_exact:
  assumes "wf_cache s"
  shows "invalidate_keys ks s =
           (length (filter (\<lambda>k. k \<in> set ks) (dict_keys (l1_cache s) @ dict_keys (l2_cache s))),
            without_keys (\<lambda>k. k \<in> set ks) s)"
  using foldl_invalidate_key_exact[OF assms, of 0 ks] by (simp add: invalidate_keys_def)

section \<open>Claims\<close>

text \<open>
  C1 (single-tier membership).  The code does not keep this invariant: \<open>set\<close> stores the
  new entry in the hot tier and never looks at the warm tier, whereas \<open>_promote_to_l1\<close>
  removes the warm copy when it moves an entry up.  On a cache of hot capacity 4, five
  \<open>set\<close> calls leave \<open>k\<close> in the warm tier only; a sixth call \<open>set(k, 6, ttl=1)\<close> then
  leaves \<open>k\<close> in both tiers.
\<close>

theorem set_keeps_warm_copy:
  "state_of hot_keys (run real churn_ops (init_cache 4 4 300)) = Inr [''a'', ''b'', ''c'', ''d''] \<and>
   state_of warm_keys (run real churn_ops (init_cache 4 4 300)) = Inr [''k''] \<and>
   state_of hot_keys (run real (churn_ops @ [Set ''k'' 6 (Some 1)]) (init_cache 4 4 300))
     = Inr [''b'', ''c'', ''d'', ''k''] \<and>
   state_of warm_keys (run real (churn_ops @ [Set ''k'' 6 (Some 1)]) (init_cache 4 4 300))
     = Inr [''k'', ''a'']"
  by (simp add: churn_ops_def cache_defs)

text \<open>
  C2 (capacity bound), as stated for every configured capacity, fails: \<open>set\<close> stores its
  entry unconditionally, so with \<open>l1_size = 0\<close> the hot tier holds one entry after one call.
\<close>

theorem zero_capacity_counterexample:
  "state_of l1_size (run real [Set ''a'' (1::nat) None] (init_cache 0 4 300)) = Inr 0 \<and>
   state_of hot_keys (run real [Set ''a'' (1::nat) None] (init_cache 0 4 300)) = Inr [''a'']"
  by (simp add: cache_defs)

text \<open>
  C2, amended.  For hot and warm capacities of at least 4, every finite sequence of
  \<open>get\<close>, \<open>set\<close> and \<open>invalidate\<close> calls on a freshly constructed cache runs without an
  exception and ends with at most \<open>l1_size\<close> entries in the hot tier and at most \<open>l2_size\<close>
  in the warm tier.  Every prefix of a sequence is a sequence, so the bound holds after
  each operation.  (Below 4 the batch \<open>size // 4\<close> is 0 and nothing is evicted.)
\<close>

theorem capacity_bound_from_four:
  assumes "4 \<le> a" "4 \<le> b"
  shows "\<exists>rs s. run clk ops (init_cache a b ttl) = Inr (rs, s) \<and>
           int (length (l1_cache s)) \<le> a \<and> int (length (l2_cache s)) \<le> b"
proof -
  have "within_capacity a b (init_cache a b ttl)"
    using wf_init[of a b ttl] assms by (simp add: within_capacity_def) (simp add: init_cache_def)
  from run_capacity[OF assms this, of clk ops]
  show ?thesis by (auto simp: within_capacity_def)
qed

text \<open>
  The bound at capacities 4 and 4, on a run with evictions, an overwrite and a promotion.
\<close>

theorem capacity_bound_from_four_witness:
  "(4::int) \<le> 4 \<and> (4::int) \<le> 4 \<and>
   (\<exists>rs s. run real (churn_ops @ [Set ''k'' 6 (Some 1), Get ''k'']) (init_cache 4 4 300) = Inr (rs, s) \<and>
      int (length (l1_cache s)) \<le> 4 \<and> int (length (l2_cache s)) \<le> 4)"
  using capacity_bound_from_four[of 4 4 real "churn_ops @ [Set ''k'' 6 (Some 1), Get ''k'']" 300]
  by simp

text \<open>
  C3 (TTL correctness and no stale reads).  The last part of the claim fails on the code.
  After the five \<open>set\<close> calls of \<open>churn_ops\<close> the value 1 of \<open>k\<close> sits in the warm tier with
  expiry 1000.  \<open>set(k, 6, ttl=1)\<close> at time 7 stores an entry that expires at 8 and leaves
  the warm copy in place.  The \<open>get(k)\<close> at time 10, after that TTL has elapsed, drops the
  hot entry and returns the old value 1 from the warm tier instead of \<open>None\<close>.
\<close>

theorem stale_value_after_ttl:
  "state_of (hot_expiry ''k'') (run real (churn_ops @ [Set ''k'' 6 (Some 1)]) (init_cache 4 4 300))
     = Inr (Some 8) \<and>
   state_of tick (run real (churn_ops @ [Set ''k'' 6 (Some 1)]) (init_cache 4 4 300)) = Inr 10 \<and>
   results_of (run real (churn_ops @ [Set ''k'' 6 (Some 1), Get ''k'']) (init_cache 4 4 300))
     = Inr [Done, Done, Done, Done, Done, Done, Returned (Some 1)]"
  by (simp add: churn_ops_def hot_expiry_def cache_defs)

text \<open>
  C4 (zero or negative TTL means already expired), as stated, fails for \<open>ttl = 0\<close>: the
  expression \<open>ttl or self.default_ttl\<close> replaces 0 by the default TTL of 300, and the next
  \<open>get\<close> returns the value.
\<close>

theorem zero_ttl_counterexample:
  "results_of (run real [Set ''a'' (1::nat) (Some 0), Get ''a''] (init_cache 4 4 300))
     = Inr [Done, Returned (Some 1)]"
  by (simp add: cache_defs)

text \<open>
  C4, amended.  For a negative \<open>ttl\<close>, \<open>set(key, value, ttl)\<close> on a well-formed state returns
  and stores a hot entry whose expiry, the time of the call plus \<open>ttl\<close>, is already past; a
  following \<open>get(key)\<close> at a clock reading not before that of the \<open>set\<close> removes the entry
  from the hot tier and returns \<open>None\<close>, provided the warm tier holds no entry for the key.
  A \<open>ttl\<close> of 0 behaves as an omitted \<open>ttl\<close>: the default TTL applies.
\<close>

theorem negative_ttl_expired:
  assumes "wf_cache s" "ttl < 0"
  shows "(\<exists>s1. cache_set clk key v (Some ttl) s = Inr s1 \<and>
           hot_expiry key s1 = Some (clk (tick s) + real_of_int ttl) \<and>
           (\<not> dict_in key (l2_cache s1) \<and> clk (tick s) \<le> clk (tick s1) \<longrightarrow>
              (\<exists>s2. get clk key s1 = Inr (None, s2) \<and> \<not> dict_in key (l1_cache s2)))) \<and>
         cache_set clk key v (Some 0) s = cache_set clk key v None s"
proof -
  from cache_set_wf[OF assms(1), of clk key v "Some ttl"]
  obtain s1 where s1: "cache_set clk key v (Some ttl) s = Inr s1" by blast
  let ?e = "\<lparr>entry_value = v, expires_at = clk (tick s) + real_of_int ttl,
             created_at = clk (tick s), access_count = 1\<rparr>"
  from cache_set_stores[OF s1] assms(2)
  have e: "dict_get (l1_cache s1) key = Some ?e"
    by (simp add: ttl_or_default_def)
  then have x: "hot_expiry key s1 = Some (clk (tick s) + real_of_int ttl)"
    by (simp add: hot_expiry_def)
  have "\<exists>s2. get clk key s1 = Inr (None, s2) \<and> \<not> dict_in key (l1_cache s2)"
    if "\<not> dict_in key (l2_cache s1)" "clk (tick s) \<le> clk (tick s1)"
  proof -
    from assms(2) that(2) have "expires_at ?e \<le> clk (tick s1)" by simp
    with e that(1) show ?thesis
      by (intro get_hot_expired_warm_absent[where e="?e"]) simp_all
  qed
  with s1 x have "\<exists>s1. cache_set clk key v (Some ttl) s = Inr s1 \<and>
           hot_expiry key s1 = Some (clk (tick s) + real_of_int ttl) \<and>
           (\<not> dict_in key (l2_cache s1) \<and> clk (tick s) \<le> clk (tick s1) \<longrightarrow>
              (\<exists>s2. get clk key s1 = Inr (None, s2) \<and> \<not> dict_in key (l1_cache s2)))"
    by blast
  moreover have "cache_set clk key v (Some 0) s = cache_set clk key v None s"
    by (simp add: cache_set_def ttl_or_default_def)
  ultimately show ?thesis by blast
qed

text \<open>
  The amended C4 on a fresh cache with \<open>ttl = -5\<close>.
\<close>

theorem negative_ttl_expired_witness:
  "wf_cache (init_cache 4 4 300 :: nat multi_level_cache) \<and> (- 5 :: int) < 0 \<and>
   (\<exists>s1. cache_set real ''a'' (1::nat) (Some (- 5)) (init_cache 4 4 300) = Inr s1 \<and>
      hot_expiry ''a'' s1 = Some (- 5) \<and>
      \<not> dict_in ''a'' (l2_cache s1) \<and>
      real (tick (init_cache 4 4 300 :: nat multi_level_cache)) \<le> real (tick s1) \<and>
      (\<exists>s2. get real ''a'' s1 = Inr (None, s2) \<and> \<not> dict_in ''a'' (l1_cache s2))) \<and>
   cache_set real ''a'' (1::nat) (Some 0) (init_cache 4 4 300)
     = cache_set real ''a'' 1 None (init_cache 4 4 300)"
proof -
  let ?init = "init_cache 4 4 300 :: nat multi_level_cache"
  have h1: "wf_cache ?init" by (rule wf_init)
  have h2: "(- 5 :: int) < 0" by simp
  note inst = negative_ttl_expired[OF h1 h2, where clk=real and key="''a''" and v=1]
  from inst have zero: "cache_set real ''a'' (1::nat) (Some 0) ?init = cache_set real ''a'' 1 None ?init"
    by blast
  from inst obtain s1 where s1: "cache_set real ''a'' (1::nat) (Some (- 5)) ?init = Inr s1"
    "hot_expiry ''a'' s1 = Some (real (tick ?init) + real_of_int (- 5))"
    "\<not> dict_in ''a'' (l2_cache s1) \<and> real (tick ?init) \<le> real (tick s1) \<longrightarrow>
       (\<exists>s2. get real ''a'' s1 = Inr (None, s2) \<and> \<not> dict_in ''a'' (l1_cache s2))"
    by blast
  have "cache_set real ''a'' (1::nat) (Some (- 5)) ?init
          = Inr (?init\<lparr>tick := 1,
                   l1_cache := [(''a'', \<lparr>entry_value = 1, expires_at = - 5, created_at = 0,
                                         access_count = 1\<rparr>)],
                   l1_access_times := [(''a'', 0)]\<rparr>)"
    by (simp add: cache_defs)
  with s1(1) have side: "\<not> dict_in ''a'' (l2_cache s1)" "real (tick ?init) \<le> real (tick s1)"
    by (auto simp add: cache_defs)
  with s1 h1 h2 have "\<exists>s1. cache_set real ''a'' (1::nat) (Some (- 5)) ?init = Inr s1 \<and>
      hot_expiry ''a'' s1 = Some (- 5) \<and>
      \<not> dict_in ''a'' (l2_cache s1) \<and>
      real (tick ?init) \<le> real (tick s1) \<and>
      (\<exists>s2. get real ''a'' s1 = Inr (None, s2) \<and> \<not> dict_in ''a'' (l1_cache s2))"
    by (auto simp add: init_cache_def)
  with h1 h2 zero show ?thesis by blast
qed

text \<open>
  C5 (LRU eviction order), as stated, fails for a hot capacity of 8: the ninth \<open>set\<close> evicts
  the batch of \<open>8 // 4 = 2\<close> oldest keys, so \<open>k2\<close> goes to the warm tier together with \<open>k1\<close>.
\<close>

theorem lru_single_eviction_counterexample:
  "state_of warm_keys (run real nine_sets (init_cache 8 8 300)) = Inr [''k1'', ''k2''] \<and>
   state_of hot_keys (run real nine_sets (init_cache 8 8 300))
     = Inr [''k3'', ''k4'', ''k5'', ''k6'', ''k7'', ''k8'', ''k9'']"
  by (simp add: nine_sets_def set_ops_def cache_defs)

text \<open>
  C5, amended.  Take a fresh cache of hot capacity \<open>N \<ge> 4\<close> and warm capacity at least
  \<open>N div 4\<close>, a clock that never runs backwards, and \<open>N + 1\<close> distinct keys set in order
  with a TTL that has not elapsed when the run ends.  Then the \<open>N div 4\<close> keys set first are
  in the warm tier, in that order, and all others are in the hot tier; for \<open>N \<le> 7\<close> the
  batch is 1 and exactly the first key is evicted.
\<close>

theorem lru_batch_eviction:
  fixes kvs :: "(string \<times> 'v) list"
  assumes "4 \<le> N" "length kvs = Suc N" "distinct (map fst kvs)"
    and "mono clk"
    and "clk (N + 1 + 2 * (N div 4))
           < clk 0 + real_of_int (ttl_or_default ttl (init_cache (int N) l2 d :: 'v multi_level_cache))"
    and "int (N div 4) \<le> l2"
  shows "state_of hot_keys (run clk (set_ops ttl kvs) (init_cache (int N) l2 d))
           = Inr (drop (N div 4) (map fst kvs)) \<and>
         state_of warm_keys (run clk (set_ops ttl kvs) (init_cache (int N) l2 d))
           = Inr (take (N div 4) (map fst kvs)) \<and>
         (N \<le> 7 \<longrightarrow>
            state_of hot_keys (run clk (set_ops ttl kvs) (init_cache (int N) l2 d))
              = Inr (tl (map fst kvs)) \<and>
            state_of warm_keys (run clk (set_ops ttl kvs) (init_cache (int N) l2 d))
              = Inr [fst (hd kvs)])"
proof -
  let ?init = "init_cache (int N) l2 d :: 'v multi_level_cache"
  let ?ttl = "ttl_or_default ttl ?init"
  let ?q = "N div 4"
  define front where "front = butlast kvs"
  obtain k v where kv: "last kvs = (k, v)" by (cases "last kvs")
  have ne: "kvs \<noteq> []" using assms(2) by auto
  have split: "kvs = front @ [(k, v)]"
    using ne kv append_butlast_last_id[of kvs] by (simp add: front_def)
  have len: "length front = N" using assms(2) by (simp add: front_def)
  have dist: "distinct (map fst front)" and fresh: "k \<notin> set (map fst front)"
    using assms(3) by (simp_all add: split)
  let ?sN = "?init\<lparr>tick := tick ?init + length front,
                     l1_cache := l1_cache ?init @ fresh_entries clk (tick ?init) ?ttl front,
                     l1_access_times := l1_access_times ?init @ fresh_times clk (tick ?init) front\<rparr>"
  have fill: "run clk (set_ops ttl front) ?init = Inr (replicate (length front) Done, ?sN)"
    using dist len by (intro run_set_ops_fill) (simp_all add: init_cache_def dict_keys_def)
  have "\<exists>s'. cache_set clk k v ttl ?sN = Inr s' \<and>
           hot_keys s' = drop ?q (map fst front) @ [k] \<and>
           warm_keys s' = take ?q (map fst front)"
  proof (rule last_set_evicts[where ttl'="?ttl"])
    show "l1_cache ?sN = fresh_entries clk 0 ?ttl front" by (simp add: init_cache_def)
    show "l1_access_times ?sN = fresh_times clk 0 front" by (simp add: init_cache_def)
    show "l2_cache ?sN = []" by (simp add: init_cache_def)
    show "l2_access_times ?sN = []" by (simp add: init_cache_def)
    show "tick ?sN = length front" by (simp add: init_cache_def)
    show "l1_size ?sN = int (length front)" by (simp add: init_cache_def len)
    show "?q = length front div 4" by (simp add: len)
    show "int ?q \<le> l2_size ?sN" using assms(6) by (simp add: init_cache_def)
    show "distinct (map fst front)" by fact
    show "k \<notin> set (map fst front)" by fact
    show "mono clk" by fact
    show "clk (length front + 1 + 2 * ?q) < clk 0 + real_of_int ?ttl"
      using assms(5) by (simp add: len)
  qed
  then obtain s' where s': "cache_set clk k v ttl ?sN = Inr s'"
    "hot_keys s' = drop ?q (map fst front) @ [k]" "warm_keys s' = take ?q (map fst front)"
    by blast
  have run: "run clk (set_ops ttl kvs) ?init = Inr (replicate (length front) Done @ [Done], s')"
    by (simp add: split set_ops_def run_append fill[unfolded set_ops_def] s'(1))
  have q_le: "?q \<le> length (map fst front)" using len by simp
  have hot: "state_of hot_keys (run clk (set_ops ttl kvs) ?init) = Inr (drop ?q (map fst kvs))"
    using q_le unfolding run by (simp add: state_of_def s'(2) split)
  have warm: "state_of warm_keys (run clk (set_ops ttl kvs) ?init) = Inr (take ?q (map fst kvs))"
    using q_le unfolding run by (simp add: state_of_def s'(3) split)
  have "?q = 1" if "N \<le> 7" using that assms(1) by simp
  moreover have "take 1 (map fst kvs) = [fst (hd kvs)]" "drop 1 (map fst kvs) = tl (map fst kvs)"
    using ne by (cases kvs; simp)+
  ultimately show ?thesis using hot warm by (auto simp del: One_nat_def)
qed

text \<open>
  The amended C5 at \<open>N = 4\<close> with five keys.
\<close>

theorem lru_batch_eviction_witness:
  "(4::nat) \<le> 4 \<and> length five_pairs = Suc 4 \<and> distinct (map fst five_pairs) \<and> mono real \<and>
   real (4 + 1 + 2 * (4 div 4))
     < real 0 + real_of_int (ttl_or_default None (init_cache (int 4) 4 300 :: nat multi_level_cache)) \<and>
   int (4 div 4) \<le> 4 \<and> (4::nat) \<le> 7 \<and>
   state_of hot_keys (run real (set_ops None five_pairs) (init_cache (int 4) 4 300))
     = Inr [''k2'', ''k3'', ''k4'', ''k5''] \<and>
   state_of warm_keys (run real (set_ops None five_pairs) (init_cache (int 4) 4 300))
     = Inr [''k1'']"
proof -
  have h1: "(4::nat) \<le> 4" by simp
  have h2: "length five_pairs = Suc 4" by (simp add: five_pairs_def)
  have h3: "distinct (map fst five_pairs)" by (simp add: five_pairs_def)
  have h4: "mono real" by (simp add: mono_def)
  have h5: "real (4 + 1 + 2 * (4 div 4))
     < real 0 + real_of_int (ttl_or_default None (init_cache (int 4) 4 300 :: nat multi_level_cache))"
    by (simp add: ttl_or_default_def init_cache_def)
  have h6: "int (4 div 4) \<le> 4" by simp
  have h7: "(4::nat) \<le> 7" by simp
  from lru_batch_eviction[OF h1 h2 h3 h4 h5 h6] h7
  have "state_of hot_keys (run real (set_ops None five_pairs) (init_cache (int 4) 4 300))
          = Inr (tl (map fst five_pairs)) \<and>
        state_of warm_keys (run real (set_ops None five_pairs) (init_cache (int 4) 4 300))
          = Inr [fst (hd five_pairs)]"
    by blast
  then have "state_of hot_keys (run real (set_ops None five_pairs) (init_cache (int 4) 4 300))
     = Inr [''k2'', ''k3'', ''k4'', ''k5''] \<and>
   state_of warm_keys (run real (set_ops None five_pairs) (init_cache (int 4) 4 300))
     = Inr [''k1'']"
    by (simp add: five_pairs_def)
  with h1 h2 h3 h4 h5 h6 h7 show ?thesis by blast
qed

text \<open>
  C6 (promotion preserves value and original expiry).  On a well-formed state in which
  the warm tier holds an unexpired entry for the key and the hot tier holds none or an
  expired one, \<open>get\<close> returns the stored value, leaves the same entry (so the same
  \<open>expires_at\<close>) in the hot tier, removes the key from the warm tier and records as last
  access time the last clock reading of the call; a second \<open>get\<close> made before the expiry
  returns the same value and leaves the same entry.
\<close>

theorem promotion_preserves_entry:
  assumes "wf_cache s"
    and "\<forall>e1. dict_get (l1_cache s) key = Some e1 \<longrightarrow> expires_at e1 \<le> clk (tick s)"
    and "dict_get (l2_cache s) key = Some e"
    and "clk (tick s) < expires_at e"
  shows "\<exists>s'. get clk key s = Inr (Some (entry_value e), s') \<and>
           dict_get (l1_cache s') key = Some e \<and>
           \<not> dict_in key (l2_cache s') \<and>
           tick s < tick s' \<and>
           dict_get (l1_access_times s') key = Some (clk (tick s' - 1)) \<and>
           (clk (tick s') < expires_at e \<longrightarrow>
              (\<exists>s''. get clk key s' = Inr (Some (entry_value e), s'') \<and>
                     dict_get (l1_cache s'') key = Some e))"
proof -
  define s0 where "s0 = s\<lparr>tick := Suc (tick s)\<rparr>"
  define sc where "sc = (case dict_get (l1_cache s) key of
      None \<Rightarrow> s0
    | Some e1 \<Rightarrow> s0\<lparr>l1_cache := dict_discard key (l1_cache s0),
                     l1_access_times := dict_discard key (l1_access_times s0)\<rparr>)"
  have wf0: "wf_cache s0" using assms(1) by (simp add: s0_def)
  have wfc: "wf_cache sc"
    using wf0 wf_l1_remove[OF wf0, of key] by (simp add: sc_def split: option.splits)
  have l2c: "dict_get (l2_cache sc) key = Some e"
    using assms(3) by (simp add: sc_def s0_def split: option.splits)
  have tc: "tick sc = Suc (tick s)"
    by (simp add: sc_def s0_def split: option.splits)
  have get_eq: "get clk key s = get_l2 clk key (clk (tick s)) sc"
    using assms(2) by (auto simp add: get_def time_time_def sc_def s0_def split: option.splits)
  from get_l2_hit[OF wfc l2c assms(4), of clk]
  obtain s' where s': "get_l2 clk key (clk (tick s)) sc = Inr (Some (entry_value e), s')"
    "dict_get (l1_cache s') key = Some e" "\<not> dict_in key (l2_cache s')"
    "tick sc < tick s'" "dict_get (l1_access_times s') key = Some (clk (tick s' - 1))"
    by blast
  have again: "\<exists>s''. get clk key s' = Inr (Some (entry_value e), s'') \<and>
                     dict_get (l1_cache s'') key = Some e"
    if "clk (tick s') < expires_at e"
    using get_hot_hit[where clk=clk and s=s' and key=key and e=e] s'(2) that by auto
  from s' tc again show ?thesis
    unfolding get_eq by (intro exI[of _ s']) simp
qed

text \<open>
  C6 on the state after \<open>churn_ops\<close>: \<open>k\<close> was set at time 0 with TTL 1000 and demoted.
\<close>

theorem promotion_preserves_entry_witness:
  "wf_cache after_churn \<and>
   dict_get (l1_cache after_churn) ''k'' = None \<and>
   dict_get (l2_cache after_churn) ''k''
     = Some \<lparr>entry_value = 1, expires_at = 1000, created_at = 0, access_count = 1\<rparr> \<and>
   real (tick after_churn) < 1000 \<and>
   (\<exists>s'. get real ''k'' after_churn = Inr (Some 1, s') \<and>
      hot_expiry ''k'' s' = Some 1000 \<and>
      \<not> dict_in ''k'' (l2_cache s') \<and>
      dict_get (l1_access_times s') ''k'' = Some (real (tick s' - 1)) \<and>
      real (tick s') < 1000 \<and>
      (\<exists>s''. get real ''k'' s' = Inr (Some 1, s'') \<and> hot_expiry ''k'' s'' = Some 1000))"
proof -
  let ?e = "\<lparr>entry_value = 1::nat, expires_at = 1000, created_at = 0, access_count = 1\<rparr>"
  have h1: "wf_cache after_churn"
    by (simp add: after_churn_def churn_ops_def wf_cache_def cache_defs)
  have h2': "dict_get (l1_cache after_churn) ''k'' = None"
    by (simp add: after_churn_def churn_ops_def cache_defs)
  then have h2: "\<forall>e1. dict_get (l1_cache after_churn) ''k'' = Some e1
              \<longrightarrow> expires_at e1 \<le> real (tick after_churn)"
    by simp
  have h3: "dict_get (l2_cache after_churn) ''k'' = Some ?e"
    by (simp add: after_churn_def churn_ops_def cache_defs)
  have h4: "real (tick after_churn) < expires_at ?e"
    by (simp add: after_churn_def churn_ops_def cache_defs)
  from promotion_preserves_entry[where clk=real and s=after_churn and key="''k''" and e="?e",
      OF h1 h2 h3 h4]
  obtain s' where s': "get real ''k'' after_churn = Inr (Some (entry_value ?e), s')"
    "dict_get (l1_cache s') ''k'' = Some ?e" "\<not> dict_in ''k'' (l2_cache s')"
    "dict_get (l1_access_times s') ''k'' = Some (real (tick s' - 1))"
    "real (tick s') < expires_at ?e \<longrightarrow>
       (\<exists>s''. get real ''k'' s' = Inr (Some (entry_value ?e), s'') \<and>
              dict_get (l1_cache s'') ''k'' = Some ?e)"
    by blast
  have "tick s' = 11"
    using s'(1) by (auto simp add: after_churn_def churn_ops_def cache_defs)
  with s' h1 h2' h3 h4 show ?thesis
    by (auto simp add: hot_expiry_def)
qed

text \<open>
  C7 (statistics hit rates).  \<open>get_stats\<close> never raises, and its three rates are the
  ratios of the specification, 0 when the denominator is 0; with 3 hot hits and 1 hot
  miss the hot hit rate is 0.75.
\<close>

theorem hit_rates:
  "get_stats s =
     Inr \<lparr>snap_stats = stats s,
          snap_l1_size = length (l1_cache s), snap_l2_size = length (l2_cache s),
          l1_hit_rate = spec_hit_rate (l1_hits (stats s)) (l1_hits (stats s) + l1_misses (stats s)),
          l2_hit_rate = spec_hit_rate (l2_hits (stats s)) (l2_hits (stats s) + l2_misses (stats s)),
          total_hit_rate = spec_hit_rate (l1_hits (stats s) + l2_hits (stats s))
             (l1_hits (stats s) + l1_misses (stats s) + l2_hits (stats s) + l2_misses (stats s))\<rparr>
   \<and> (l1_hits (stats s) = 3 \<and> l1_misses (stats s) = 1 \<longrightarrow>
        map_sum id l1_hit_rate (get_stats s) = Inr 0.75)"
proof -
  let ?h1 = "l1_hits (stats s)" and ?m1 = "l1_misses (stats s)"
  let ?h2 = "l2_hits (stats s)" and ?m2 = "l2_misses (stats s)"
  have r1: "py_truediv (int ?h1) (max (int ?h1 + int ?m1) 1) = Inr (spec_hit_rate ?h1 (?h1 + ?m1))"
    using truediv_max[of ?h1 "?h1 + ?m1"] by simp
  have r2: "py_truediv (int ?h2) (max (int ?h2 + int ?m2) 1) = Inr (spec_hit_rate ?h2 (?h2 + ?m2))"
    using truediv_max[of ?h2 "?h2 + ?m2"] by simp
  have r3: "py_truediv (int ?h1 + int ?h2) (max (int ?h1 + int ?m1 + int ?h2 + int ?m2) 1)
              = Inr (spec_hit_rate (?h1 + ?h2) (?h1 + ?m1 + ?h2 + ?m2))"
    using truediv_max[of "?h1 + ?h2" "?h1 + ?m1 + ?h2 + ?m2"] by simp
  have eq: "get_stats s =
     Inr \<lparr>snap_stats = stats s,
          snap_l1_size = length (l1_cache s), snap_l2_size = length (l2_cache s),
          l1_hit_rate = spec_hit_rate ?h1 (?h1 + ?m1),
          l2_hit_rate = spec_hit_rate ?h2 (?h2 + ?m2),
          total_hit_rate = spec_hit_rate (?h1 + ?h2) (?h1 + ?m1 + ?h2 + ?m2)\<rparr>"
    by (simp add: get_stats_def Let_def r1 r2 r3)
  have "?h1 = 3 \<and> ?m1 = 1 \<longrightarrow> map_sum id l1_hit_rate (get_stats s) = Inr 0.75"
    by (simp add: eq spec_hit_rate_def)
  with eq show ?thesis by blast
qed

text \<open>
  C7 on the state reached by one \<open>set\<close>, three hot hits and one miss.
\<close>

theorem hit_rates_witness:
  "run real [Set ''k'' (7::nat) None, Get ''k'', Get ''k'', Get ''k'', Get ''x'']
       (init_cache 4 4 300)
     = Inr ([Done, Returned (Some 7), Returned (Some 7), Returned (Some 7), Returned None],
            \<lparr>l1_size = 4, l2_size = 4, default_ttl = 300,
             l1_cache = [(''k'', \<lparr>entry_value = 7, expires_at = 300, created_at = 0,
                                   access_count = 1\<rparr>)],
             l1_access_times = [(''k'', 3)], l2_cache = [], l2_access_times = [],
             stats = \<lparr>l1_hits = 3, l1_misses = 1, l2_hits = 0, l2_misses = 1,
                      evictions = 0, invalidations = 0\<rparr>,
             tick = 5\<rparr>)
   \<and> map_sum id l1_hit_rate
        (get_stats \<lparr>l1_size = 4, l2_size = 4, default_ttl = 300,
             l1_cache = [(''k'', \<lparr>entry_value = 7::nat, expires_at = 300, created_at = 0,
                                   access_count = 1\<rparr>)],
             l1_access_times = [(''k'', 3)], l2_cache = [], l2_access_times = [],
             stats = \<lparr>l1_hits = 3, l1_misses = 1, l2_hits = 0, l2_misses = 1,
                      evictions = 0, invalidations = 0\<rparr>,
             tick = 5\<rparr>) = Inr 0.75"
proof -
  let ?s = "\<lparr>l1_size = 4, l2_size = 4, default_ttl = 300,
             l1_cache = [(''k'', \<lparr>entry_value = 7::nat, expires_at = 300, created_at = 0,
                                   access_count = 1\<rparr>)],
             l1_access_times = [(''k'', 3)], l2_cache = [], l2_access_times = [],
             stats = \<lparr>l1_hits = 3, l1_misses = 1, l2_hits = 0, l2_misses = 1,
                      evictions = 0, invalidations = 0\<rparr>,
             tick = 5\<rparr>"
  have "l1_hits (stats ?s) = 3 \<and> l1_misses (stats ?s) = 1" by simp
  with hit_rates[of ?s] have "map_sum id l1_hit_rate (get_stats ?s) = Inr 0.75" by blast
  moreover have "run real [Set ''k'' (7::nat) None, Get ''k'', Get ''k'', Get ''k'', Get ''x'']
       (init_cache 4 4 300)
     = Inr ([Done, Returned (Some 7), Returned (Some 7), Returned (Some 7), Returned None], ?s)"
    by (simp add: cache_defs)
  ultimately show ?thesis by simp
qed

text \<open>
  C8 (invalidate argument contract), as stated, fails when \<open>keys\<close> is supplied as the empty
  list together with a pattern: \<open>if keys:\<close> is false for an empty list, the pattern branch
  runs and removes the matching entry, where exact-key mode would remove nothing.
\<close>

theorem invalidate_counterexample:
  "results_of (run real [Set ''a'' (1::nat) None, Invalidate (Some ''a'') (Some [])]
       (init_cache 4 4 300)) = Inr [Done, Removed 1] \<and>
   state_of hot_keys (run real [Set ''a'' (1::nat) None, Invalidate (Some ''a'') (Some [])]
       (init_cache 4 4 300)) = Inr [] \<and>
   results_of (run real [Set ''a'' (1::nat) None, Invalidate None (Some [])]
       (init_cache 4 4 300)) = Inr [Done, Removed 0]"
  by (simp add: cache_defs)

text \<open>
  C8, amended.  With \<open>keys\<close> absent or empty and \<open>pattern\<close> absent or empty, \<open>invalidate\<close>
  changes nothing and returns 0.  With a non-empty \<open>keys\<close> list the exact-key mode runs
  and the pattern is ignored: on a well-formed state every listed key leaves both tiers,
  nothing else changes, and the returned count is the number of entries removed, one per
  tier, so a key present in both tiers contributes 2.  With \<open>keys\<close> absent or empty and a
  non-empty pattern the pattern mode runs: on a well-formed state exactly the keys that
  contain the pattern leave both tiers, counted the same way.  In every case the
  invalidation counter grows by the returned count.
\<close>

theorem invalidate_contract:
  "(keys \<in> {None, Some []} \<and> pattern \<in> {None, Some ''''} \<longrightarrow>
      invalidate pattern keys s = (0, s)) \<and>
   invalidate pattern (Some (key # rest)) s = invalidate None (Some (key # rest)) s \<and>
   (wf_cache s \<longrightarrow>
      invalidate pattern (Some (key # rest)) s = spec_invalidate (\<lambda>k. k \<in> set (key # rest)) s) \<and>
   (wf_cache s \<and> keys \<in> {None, Some []} \<longrightarrow>
      invalidate (Some (c # cs)) keys s = spec_invalidate (str_contains (c # cs)) s) \<and>
   (wf_cache s \<longrightarrow>
      fst (invalidate pattern (Some (key # rest)) s)
        + length (l1_cache (snd (invalidate pattern (Some (key # rest)) s)))
        + length (l2_cache (snd (invalidate pattern (Some (key # rest)) s)))
      = length (l1_cache s) + length (l2_cache s)) \<and>
   (dict_in key (l1_cache s) \<and> dict_in key (l2_cache s) \<longrightarrow>
      fst (invalidate pattern (Some [key]) s) = 2) \<and>
   invalidations (stats (snd (invalidate pattern keys s)))
     = invalidations (stats s) + fst (invalidate pattern keys s)"
proof -
  have a: "keys \<in> {None, Some []} \<and> pattern \<in> {None, Some ''''} \<longrightarrow>
      invalidate pattern keys s = (0, s)"
    by (auto simp add: invalidate_def)
  have b: "invalidate pattern (Some (key # rest)) s = invalidate None (Some (key # rest)) s"
    by (simp add: invalidate_def)
  have c: "dict_in key (l1_cache s) \<and> dict_in key (l2_cache s) \<longrightarrow>
      fst (invalidate pattern (Some [key]) s) = 2"
    by (simp add: invalidate_def invalidate_keys_def invalidate_key_def)
  have d: "invalidate pattern (Some (key # rest)) s = spec_invalidate (\<lambda>k. k \<in> set (key # rest)) s"
    if "wf_cache s"
    using invalidate_keys_exact[OF that, of "key # rest"]
    by (simp add: invalidate_def spec_invalidate_def hot_keys_def warm_keys_def without_keys_def
        Let_def del: set_simps filter_append)
  have e: "invalidate (Some (c # cs)) keys s = spec_invalidate (str_contains (c # cs)) s"
    if "wf_cache s" "keys \<in> {None, Some []}"
    using invalidate_pattern_exact[OF that(1), of "c # cs"] that(2)
    by (auto simp add: invalidate_def spec_invalidate_def hot_keys_def warm_keys_def
        without_keys_def Let_def simp del: filter_append)
  show ?thesis
    using a b c d e invalidate_exact_count[of s pattern key rest]
      invalidate_counter[of pattern keys s]
    by blast
qed

text \<open>
  The amended C8 on a state that holds \<open>k\<close> in both tiers: two listed keys in exact-key
  mode, an empty list with the pattern \<open>k\<close>, and the empty pattern.
\<close>

theorem invalidate_contract_witness:
  "Some [] \<in> {None, Some []} \<and> Some '''' \<in> {None, Some ''''} \<and>
   invalidate (Some '''') (Some []) after_reset = (0, after_reset) \<and>
   wf_cache after_reset \<and>
   hot_keys after_reset = [''b'', ''c'', ''d'', ''k''] \<and> warm_keys after_reset = [''k'', ''a''] \<and>
   fst (invalidate (Some ''zz'') (Some [''k'', ''b'']) after_reset) = 3 \<and>
   hot_keys (snd (invalidate (Some ''zz'') (Some [''k'', ''b'']) after_reset)) = [''c'', ''d''] \<and>
   warm_keys (snd (invalidate (Some ''zz'') (Some [''k'', ''b'']) after_reset)) = [''a''] \<and>
   fst (invalidate (Some ''k'') (Some []) after_reset) = 2 \<and>
   hot_keys (snd (invalidate (Some ''k'') (Some []) after_reset)) = [''b'', ''c'', ''d''] \<and>
   warm_keys (snd (invalidate (Some ''k'') (Some []) after_reset)) = [''a''] \<and>
   invalidations (stats (snd (invalidate (Some ''k'') (Some []) after_reset))) = 2 \<and>
   dict_in ''k'' (l1_cache after_reset) \<and> dict_in ''k'' (l2_cache after_reset) \<and>
   fst (invalidate (Some ''zz'') (Some [''k'']) after_reset) = 2 \<and>
   length (l1_cache (snd (invalidate (Some ''zz'') (Some [''k'']) after_reset)))
     + length (l2_cache (snd (invalidate (Some ''zz'') (Some [''k'']) after_reset))) = 4"
proof -
  have wf: "wf_cache after_reset"
    by (simp add: after_reset_def churn_ops_def wf_cache_def cache_defs)
  have hot: "hot_keys after_reset = [''b'', ''c'', ''d'', ''k'']"
    and warm: "warm_keys after_reset = [''k'', ''a'']"
    by (simp_all add: after_reset_def churn_ops_def cache_defs)
  have both: "dict_in ''k'' (l1_cache after_reset) \<and> dict_in ''k'' (l2_cache after_reset)"
    by (simp add: after_reset_def churn_ops_def cache_defs)
  have len: "length (l1_cache after_reset) + length (l2_cache after_reset) = 6"
    by (simp add: after_reset_def churn_ops_def cache_defs)
  have st: "invalidations (stats after_reset) = 0"
    by (simp add: after_reset_def churn_ops_def cache_defs)
  have k: "Some [] \<in> {None, Some ([] :: string list)}" and p: "Some '''' \<in> {None, Some ''''}"
    by simp_all
  from invalidate_contract[where keys="Some []" and pattern="Some ''''" and s=after_reset]
  have z: "invalidate (Some '''') (Some []) after_reset = (0, after_reset)" by simp
  note one = invalidate_contract[where keys="Some []" and pattern="Some ''zz''" and s=after_reset
      and key="''k''" and rest="[]" and c="CHR ''k''" and cs="[]"]
  note two = invalidate_contract[where keys="Some []" and pattern="Some ''zz''" and s=after_reset
      and key="''k''" and rest="[''b'']" and c="CHR ''k''" and cs="[]"]
  from two wf have ex: "invalidate (Some ''zz'') (Some [''k'', ''b'']) after_reset
      = spec_invalidate (\<lambda>k. k \<in> set [''k'', ''b'']) after_reset" by blast
  from two wf k have pat: "invalidate (Some ''k'') (Some []) after_reset
      = spec_invalidate (str_contains ''k'') after_reset" by blast
  have keys_wo: "hot_keys (without_keys P after_reset) = filter (\<lambda>k. \<not> P k) (hot_keys after_reset)"
    "warm_keys (without_keys P after_reset) = filter (\<lambda>k. \<not> P k) (warm_keys after_reset)"
    for P
    by (simp_all add: hot_keys_def warm_keys_def keys_without_keys)
  have ex3: "fst (invalidate (Some ''zz'') (Some [''k'', ''b'']) after_reset) = 3"
    "hot_keys (snd (invalidate (Some ''zz'') (Some [''k'', ''b'']) after_reset)) = [''c'', ''d'']"
    "warm_keys (snd (invalidate (Some ''zz'') (Some [''k'', ''b'']) after_reset)) = [''a'']"
    unfolding ex
    by (simp_all add: spec_invalidate_def Let_def hot warm)
       (simp_all add: hot_keys_def warm_keys_def keys_without_keys hot[unfolded hot_keys_def]
          warm[unfolded warm_keys_def])
  have pat3: "fst (invalidate (Some ''k'') (Some []) after_reset) = 2"
    "hot_keys (snd (invalidate (Some ''k'') (Some []) after_reset)) = [''b'', ''c'', ''d'']"
    "warm_keys (snd (invalidate (Some ''k'') (Some []) after_reset)) = [''a'']"
    "invalidations (stats (snd (invalidate (Some ''k'') (Some []) after_reset))) = 2"
    unfolding pat
    by (simp_all add: spec_invalidate_def Let_def hot warm st)
       (simp_all add: hot_keys_def warm_keys_def keys_without_keys hot[unfolded hot_keys_def]
          warm[unfolded warm_keys_def])
  from one both have two': "fst (invalidate (Some ''zz'') (Some [''k'']) after_reset) = 2" by blast
  from one wf have "fst (invalidate (Some ''zz'') (Some [''k'']) after_reset)
        + length (l1_cache (snd (invalidate (Some ''zz'') (Some [''k'']) after_reset)))
        + length (l2_cache (snd (invalidate (Some ''zz'') (Some [''k'']) after_reset)))
      = length (l1_cache after_reset) + length (l2_cache after_reset)" by blast
  with two' len have four: "length (l1_cache (snd (invalidate (Some ''zz'') (Some [''k'']) after_reset)))
     + length (l2_cache (snd (invalidate (Some ''zz'') (Some [''k'']) after_reset))) = 4"
    by simp
  from k p z wf hot warm ex3 pat3 both two' four show ?thesis by blast
qed

text \<open>
  C9 (tier map consistency).  From a freshly constructed cache, every finite sequence of
  \<open>get\<close>, \<open>set\<close> and \<open>invalidate\<close> calls runs without an exception, whatever the
  capacities, the default TTL and the clock are, and in the state it ends in the entry
  dictionary and the access-time dictionary of each tier have the same key set.  Every
  prefix of a sequence is a sequence, so this holds after each operation.
\<close>

theorem tier_maps_consistent:
  "\<exists>rs s. run clk ops (init_cache l1 l2 ttl) = Inr (rs, s) \<and>
          set (dict_keys (l1_cache s)) = set (dict_keys (l1_access_times s)) \<and>
          set (dict_keys (l2_cache s)) = set (dict_keys (l2_access_times s))"
proof -
  from run_wf[OF wf_init, of clk ops l1 l2 ttl]
  obtain rs s where "run clk ops (init_cache l1 l2 ttl) = Inr (rs, s)" "wf_cache s"
    by blast
  then show ?thesis by (auto simp: wf_cache_def)
qed

text \<open>
  C10 (empty-pattern invalidation is a no-op).  With the empty string as pattern and no
  keys, \<open>invalidate\<close> returns 0 and leaves the state as it was, although the empty
  string is a substring of every key.
\<close>

theorem empty_pattern_is_noop:
  "invalidate (Some '''') None s = (0, s) \<and>
   invalidate (Some '''') (Some []) s = (0, s) \<and>
   str_contains '''' key"
  by (simp add: invalidate_def str_contains_empty)

end
